theory Spec2Isabelle
  imports Main "HOL-Library.Multiset"
begin

chapter \<open>gophersat: the formula package and the solver driver\<close>

text \<open>
  A shallow embedding of two Go packages: \<^verbatim>\<open>bf\<close> (Boolean formulas and their
  negation normal form, file \<^verbatim>\<open>bf/bf.go\<close>) and \<^verbatim>\<open>solver\<close> (the search driver,
  model enumeration, the optimisation loop and clause appending, file
  \<^verbatim>\<open>solver/solver.go\<close>).
\<close>

section \<open>Package bf: formulas\<close>

text \<open>
  The Go interface \<^verbatim>\<open>Formula\<close> is implemented by exactly the types \<^verbatim>\<open>trueConst\<close>,
  \<^verbatim>\<open>falseConst\<close>, \<^verbatim>\<open>variable\<close>, \<^verbatim>\<open>lit\<close>, \<^verbatim>\<open>not\<close>, \<^verbatim>\<open>and\<close> and \<^verbatim>\<open>or\<close>: a datatype with
  one constructor for each (suffixed \<open>_f\<close> where the Go name is a HOL constant). The
  \<^verbatim>\<open>default: panic\<close> branch of \<^verbatim>\<open>not.nnf\<close> is then unreachable.
\<close>

record variable =
  name :: string
  dummy :: bool

datatype Formula =
    trueConst
  | falseConst
  | variable_f variable
  | lit_f variable bool
  | not_f Formula
  | and_f "Formula list"
  | or_f "Formula list"

text \<open>
  The loop of \<^verbatim>\<open>and.nnf\<close> over the normal forms of the subformulas, with the
  accumulator \<^verbatim>\<open>res\<close>: a nested conjunction is spliced in, \<^verbatim>\<open>True\<close> is dropped and
  \<^verbatim>\<open>False\<close> leaves the function at once (\<open>None\<close>). \<^verbatim>\<open>or.nnf\<close> is its mirror image.
\<close>

fun and_loop :: "Formula list \<Rightarrow> Formula list \<Rightarrow> Formula list option" where
  "and_loop res [] = Some res"
| "and_loop res (n # ns) =
     (case n of
        and_f xs \<Rightarrow> and_loop (res @ xs) ns
      | trueConst \<Rightarrow> and_loop res ns
      | falseConst \<Rightarrow> None
      | _ \<Rightarrow> and_loop (res @ [n]) ns)"

fun or_loop :: "Formula list \<Rightarrow> Formula list \<Rightarrow> Formula list option" where
  "or_loop res [] = Some res"
| "or_loop res (n # ns) =
     (case n of
        or_f xs \<Rightarrow> or_loop (res @ xs) ns
      | falseConst \<Rightarrow> or_loop res ns
      | trueConst \<Rightarrow> None
      | _ \<Rightarrow> or_loop (res @ [n]) ns)"

text \<open>The number of negations in a formula: the first component of the termination measure of \<open>nnf\<close>.\<close>

fun nots :: "Formula \<Rightarrow> nat" where
  "nots trueConst = 0"
| "nots falseConst = 0"
| "nots (variable_f v) = 0"
| "nots (lit_f v b) = 0"
| "nots (not_f f) = Suc (nots f)"
| "nots (and_f fs) = sum_list (map nots fs)"
| "nots (or_f fs) = sum_list (map nots fs)"

text \<open>
  The methods \<^verbatim>\<open>nnf\<close> of the seven types, as one function. \<^verbatim>\<open>not.nnf\<close> on a conjunction
  builds the disjunction of the normal forms of the negated subformulas and normalises it
  again, so the recursion is nested.
\<close>

function (sequential) nnf :: "Formula \<Rightarrow> Formula" where
  "nnf trueConst = trueConst"
| "nnf falseConst = falseConst"
| "nnf (variable_f v) = lit_f v False"
| "nnf (lit_f v b) = lit_f v b"
| "nnf (not_f (variable_f v)) = lit_f v True"
| "nnf (not_f (lit_f v b)) = lit_f v (\<not> b)"
| "nnf (not_f (not_f f)) = nnf f"
| "nnf (not_f (and_f fs)) = nnf (or_f (map (\<lambda>sub. nnf (not_f sub)) fs))"
| "nnf (not_f (or_f fs)) = nnf (and_f (map (\<lambda>sub. nnf (not_f sub)) fs))"
| "nnf (not_f trueConst) = falseConst"
| "nnf (not_f falseConst) = trueConst"
| "nnf (and_f fs) =
     (case and_loop [] (map nnf fs) of
        None \<Rightarrow> falseConst
      | Some res \<Rightarrow>
          if length res = 1 then res ! 0
          else if length res = 0 then falseConst
          else and_f res)"
| "nnf (or_f fs) =
     (case or_loop [] (map nnf fs) of
        None \<Rightarrow> trueConst
      | Some res \<Rightarrow>
          if length res = 1 then res ! 0
          else if length res = 0 then trueConst
          else or_f res)"
  by pat_completeness auto

text \<open>Termination: a normal form holds no negation, and subformulas are smaller.\<close>

lemma and_loop_nots:
  "and_loop res ns = Some out \<Longrightarrow> \<forall>f\<in>set res. nots f = 0 \<Longrightarrow> \<forall>f\<in>set ns. nots f = 0
   \<Longrightarrow> \<forall>f\<in>set out. nots f = 0"
proof (induction ns arbitrary: res)
  case Nil
  then show ?case by simp
next
  case (Cons n ns)
  show ?case
  proof (cases n)
    case (and_f xs)
    have "\<forall>f\<in>set (res @ xs). nots f = 0"
      using Cons.prems(2,3) and_f by (auto simp: sum_list_eq_0_iff)
    moreover have "and_loop (res @ xs) ns = Some out" using Cons.prems(1) and_f by simp
    ultimately show ?thesis using Cons.IH Cons.prems(3) by simp
  next
    case trueConst
    then show ?thesis using Cons by simp
  next
    case falseConst
    then show ?thesis using Cons by simp
  next
    case (variable_f v)
    then have "and_loop (res @ [n]) ns = Some out" using Cons.prems(1) by simp
    then show ?thesis using Cons.IH[of "res @ [n]"] Cons.prems(2,3) by simp
  next
    case (lit_f v b)
    then have "and_loop (res @ [n]) ns = Some out" using Cons.prems(1) by simp
    then show ?thesis using Cons.IH[of "res @ [n]"] Cons.prems(2,3) by simp
  next
    case (not_f g)
    then have "and_loop (res @ [n]) ns = Some out" using Cons.prems(1) by simp
    then show ?thesis using Cons.IH[of "res @ [n]"] Cons.prems(2,3) by simp
  next
    case (or_f xs)
    then have "and_loop (res @ [n]) ns = Some out" using Cons.prems(1) by simp
    then show ?thesis using Cons.IH[of "res @ [n]"] Cons.prems(2,3) by simp
  qed
qed

lemma or_loop_nots:
  "or_loop res ns = Some out \<Longrightarrow> \<forall>f\<in>set res. nots f = 0 \<Longrightarrow> \<forall>f\<in>set ns. nots f = 0
   \<Longrightarrow> \<forall>f\<in>set out. nots f = 0"
proof (induction ns arbitrary: res)
  case Nil
  then show ?case by simp
next
  case (Cons n ns)
  show ?case
  proof (cases n)
    case (or_f xs)
    have "\<forall>f\<in>set (res @ xs). nots f = 0"
      using Cons.prems(2,3) or_f by (auto simp: sum_list_eq_0_iff)
    moreover have "or_loop (res @ xs) ns = Some out" using Cons.prems(1) or_f by simp
    ultimately show ?thesis using Cons.IH Cons.prems(3) by simp
  next
    case trueConst
    then show ?thesis using Cons by simp
  next
    case falseConst
    then show ?thesis using Cons by simp
  next
    case (variable_f v)
    then have "or_loop (res @ [n]) ns = Some out" using Cons.prems(1) by simp
    then show ?thesis using Cons.IH[of "res @ [n]"] Cons.prems(2,3) by simp
  next
    case (lit_f v b)
    then have "or_loop (res @ [n]) ns = Some out" using Cons.prems(1) by simp
    then show ?thesis using Cons.IH[of "res @ [n]"] Cons.prems(2,3) by simp
  next
    case (not_f g)
    then have "or_loop (res @ [n]) ns = Some out" using Cons.prems(1) by simp
    then show ?thesis using Cons.IH[of "res @ [n]"] Cons.prems(2,3) by simp
  next
    case (and_f xs)
    then have "or_loop (res @ [n]) ns = Some out" using Cons.prems(1) by simp
    then show ?thesis using Cons.IH[of "res @ [n]"] Cons.prems(2,3) by simp
  qed
qed

lemma nnf_nots: "nnf_dom f \<Longrightarrow> nots (nnf f) = 0"
proof (induction f rule: nnf.pinduct)
  case (12 fs)
  have el: "\<forall>f\<in>set (map nnf fs). nots f = 0" using 12 by simp
  show ?case
  proof (cases "and_loop [] (map nnf fs)")
    case None
    then show ?thesis using 12(1) by (simp add: nnf.psimps)
  next
    case (Some out)
    from and_loop_nots[OF Some _ el] have "\<forall>f\<in>set out. nots f = 0" by simp
    then show ?thesis using 12(1) Some by (cases out) (auto simp: nnf.psimps)
  qed
next
  case (13 fs)
  have el: "\<forall>f\<in>set (map nnf fs). nots f = 0" using 13 by simp
  show ?case
  proof (cases "or_loop [] (map nnf fs)")
    case None
    then show ?thesis using 13(1) by (simp add: nnf.psimps)
  next
    case (Some out)
    from or_loop_nots[OF Some _ el] have "\<forall>f\<in>set out. nots f = 0" by simp
    then show ?thesis using 13(1) Some by (cases out) (auto simp: nnf.psimps)
  qed
qed (simp_all add: nnf.psimps)

lemma nots_le_sum: "x \<in> set fs \<Longrightarrow> nots x \<le> sum_list (map nots fs)"
  by (induction fs) auto

lemma size_lt_list: "x \<in> set fs \<Longrightarrow> size x < Suc (size_list size fs)"
  by (induction fs) auto

termination nnf
proof (relation "measures [nots, size]", goal_cases)
  case 1
  then show ?case by simp
next
  case (2 f)
  then show ?case by simp
next
  case (3 fs x)
  then show ?case using nots_le_sum[of x fs] size_lt_list[of x fs] by auto
next
  case (4 fs)
  then have "(\<Sum>x\<leftarrow>fs. nots (nnf (not_f x))) = 0"
    by (simp add: sum_list_eq_0_iff nnf_nots)
  then have "(\<Sum>x\<leftarrow>fs. nots (nnf (not_f x))) < Suc (sum_list (map nots fs))"
    by linarith
  then show ?case by (simp add: comp_def)
next
  case (5 fs x)
  then show ?case using nots_le_sum[of x fs] size_lt_list[of x fs] by auto
next
  case (6 fs)
  then have "(\<Sum>x\<leftarrow>fs. nots (nnf (not_f x))) = 0"
    by (simp add: sum_list_eq_0_iff nnf_nots)
  then have "(\<Sum>x\<leftarrow>fs. nots (nnf (not_f x))) < Suc (sum_list (map nots fs))"
    by linarith
  then show ?case by (simp add: comp_def)
next
  case (7 fs x)
  then show ?case using nots_le_sum[of x fs] size_lt_list[of x fs] by auto
next
  case (8 fs x)
  then show ?case using nots_le_sum[of x fs] size_lt_list[of x fs] by auto
qed

lemma and_loop_all_true:
  "\<forall>n\<in>set ns. n = trueConst \<Longrightarrow> and_loop res ns = Some res"
  by (induction ns arbitrary: res) auto

lemma or_loop_all_false:
  "\<forall>n\<in>set ns. n = falseConst \<Longrightarrow> or_loop res ns = Some res"
  by (induction ns arbitrary: res) auto

text \<open>
  C10. The normal form of a conjunction is \<^verbatim>\<open>False\<close> when it has no subformula or when
  the normal form of every subformula is \<^verbatim>\<open>True\<close>; the normal form of a disjunction is
  \<^verbatim>\<open>True\<close> when it has no subformula or when the normal form of every subformula is
  \<^verbatim>\<open>False\<close>. So \<^verbatim>\<open>And()\<close> normalises to \<^verbatim>\<open>False\<close> and \<^verbatim>\<open>Or()\<close> to \<^verbatim>\<open>True\<close>.
\<close>

theorem nnf_and_or_degenerate:
  "((\<forall>s\<in>set subs. nnf s = trueConst) \<longrightarrow> nnf (and_f subs) = falseConst) \<and>
   ((\<forall>s\<in>set subs'. nnf s = falseConst) \<longrightarrow> nnf (or_f subs') = trueConst) \<and>
   nnf (and_f []) = falseConst \<and> nnf (or_f []) = trueConst"
  by (simp add: and_loop_all_true or_loop_all_false)

theorem nnf_and_or_degenerate_witness:
  "nnf trueConst = trueConst \<and> nnf (not_f falseConst) = trueConst \<and>
   nnf (and_f [trueConst, not_f falseConst]) = falseConst \<and>
   nnf falseConst = falseConst \<and> nnf (and_f []) = falseConst \<and>
   nnf (or_f [falseConst, and_f []]) = trueConst"
  using nnf_and_or_degenerate [of "[trueConst, not_f falseConst]" "[falseConst, and_f []]"]
  by simp

section \<open>Package solver: data\<close>

text \<open>
  The search driver of \<^verbatim>\<open>solver/solver.go\<close>. The file uses types and methods that are
  declared in other files of the package, which are not among the sources at hand:
  literals and variables, the clause object, the variable queue, the restart statistics
  and the watcher lists with propagation and conflict analysis. The small ones are
  modelled below from the specification, each marked as such; propagation, conflict
  analysis, the restart statistics and the reduction of the learned clauses are
  parameters of the model (the record \<open>ops\<close>), so that every theorem holds for any
  implementation of them.

  Go's \<^verbatim>\<open>int\<close> is modelled by \<open>int\<close>: levels, counters and costs stay far below
  \<open>2^63\<close> on any input that fits in memory, weights being sums of the input's numbers.
  The floating point activities (\<^verbatim>\<open>activity\<close>, \<^verbatim>\<open>varInc\<close>, \<^verbatim>\<open>clauseInc\<close>, \<^verbatim>\<open>varDecay\<close>), the
  \<^verbatim>\<open>Verbose\<close> printing and the unused \<^verbatim>\<open>stop\<close> channels are left out.
\<close>

datatype Status = Indet | Sat | Unsat

datatype error = Panic string

type_synonym Var = nat
type_synonym Lit = int
type_synonym decLevel = int
type_synonym cref = nat

subsection \<open>Literals\<close>

text \<open>
  Modelled from the spec: the methods of \<^verbatim>\<open>Lit\<close> and \<^verbatim>\<open>Var\<close> are not among the sources.
  Section 4.1: a variable is an index, a literal is \<open>2v + sign_bit\<close>, negation flips
  the bit, and the external form of a literal is \<open>\<plusminus>(v+1)\<close>. The literal \<open>-1\<close> is the
  driver's marker for "no literal".
\<close>

definition lit_Var :: "Lit \<Rightarrow> Var" where
  "lit_Var l = nat (l div 2)"

definition IsPositive :: "Lit \<Rightarrow> bool" where
  "IsPositive l = (l mod 2 = 0)"

definition Negation :: "Lit \<Rightarrow> Lit" where
  "Negation l = (if l mod 2 = 0 then l + 1 else l - 1)"

definition SignedLit :: "Var \<Rightarrow> bool \<Rightarrow> Lit" where
  "SignedLit v signed = (if signed then 2 * int v + 1 else 2 * int v)"

definition IntToLit :: "int \<Rightarrow> Lit" where
  "IntToLit i = (if i < 0 then 2 * (- i - 1) + 1 else 2 * (i - 1))"

definition lvlToSignedLvl :: "Lit \<Rightarrow> decLevel \<Rightarrow> decLevel" where
  "lvlToSignedLvl l lvl = (if IsPositive l then lvl else - lvl)"

text \<open>\<^verbatim>\<open>func abs(val decLevel) decLevel\<close>\<close>

definition abs_lvl :: "decLevel \<Rightarrow> decLevel" where
  "abs_lvl val = (if val < 0 then - val else val)"

subsection \<open>Clauses\<close>

text \<open>
  Modelled from the spec: the type \<^verbatim>\<open>Clause\<close> and its methods are not among the sources.
  Section 3: one object for plain clauses, cardinality constraints and pseudo-Boolean
  constraints, with the literal list, the weights (for a pseudo-Boolean constraint only;
  every weight is 1 otherwise), the threshold, the learned flag, the LBD and the lock
  counter. Section 4.2: \<^verbatim>\<open>lock\<close> and \<^verbatim>\<open>unlock\<close> count references. \<^verbatim>\<open>removeLit\<close> takes
  the literal at an index out, with its weight, keeping the order of the others.
\<close>

record Clause =
  lits :: "Lit list"
  litWeights :: "int list option"
  cardinality :: int
  isLearned :: bool
  lbdValue :: int
  lockCount :: int

definition NewClause :: "Lit list \<Rightarrow> Clause" where
  "NewClause ls = \<lparr>lits = ls, litWeights = None, cardinality = 1, isLearned = False,
     lbdValue = 0, lockCount = 0\<rparr>"

definition NewPBClause :: "Lit list \<Rightarrow> int list \<Rightarrow> int \<Rightarrow> Clause" where
  "NewPBClause ls ws k = \<lparr>lits = ls, litWeights = Some ws, cardinality = k,
     isLearned = False, lbdValue = 0, lockCount = 0\<rparr>"

definition Len :: "Clause \<Rightarrow> nat" where
  "Len c = length (lits c)"

definition Get :: "Clause \<Rightarrow> nat \<Rightarrow> Lit" where
  "Get c i = lits c ! i"


definition Cardinality :: "Clause \<Rightarrow> int" where
  "Cardinality c = cardinality c"


definition Weight :: "Clause \<Rightarrow> nat \<Rightarrow> int" where
  "Weight c i = (case litWeights c of None \<Rightarrow> 1 | Some ws \<Rightarrow> ws ! i)"

definition remove_nth :: "nat \<Rightarrow> 'a list \<Rightarrow> 'a list" where
  "remove_nth i xs = take i xs @ drop (Suc i) xs"

definition removeLit :: "Clause \<Rightarrow> nat \<Rightarrow> Clause" where
  "removeLit c i = c\<lparr>lits := remove_nth i (lits c),
     litWeights := map_option (remove_nth i) (litWeights c)\<rparr>"

definition updateCardinality :: "Clause \<Rightarrow> int \<Rightarrow> Clause" where
  "updateCardinality c add = c\<lparr>cardinality := cardinality c + add\<rparr>"

definition lock :: "Clause \<Rightarrow> Clause" where
  "lock c = c\<lparr>lockCount := lockCount c + 1\<rparr>"

definition unlock :: "Clause \<Rightarrow> Clause" where
  "unlock c = c\<lparr>lockCount := lockCount c - 1\<rparr>"

subsection \<open>The variable queue\<close>

text \<open>
  Modelled from the spec: the type \<^verbatim>\<open>queue\<close> is not among the sources. Section 2: a heap
  of the free variables, keyed by activity. The model keeps the content of the heap as a
  list and takes the variables out from its head: the order in which the heap hands out
  variables depends on the floating point activities and is not modelled. No theorem
  below depends on that order.
\<close>

type_synonym queue = "nat list"

definition queue_empty :: "queue \<Rightarrow> bool" where
  "queue_empty q = (q = [])"

definition queue_contains :: "queue \<Rightarrow> nat \<Rightarrow> bool" where
  "queue_contains q n = (n \<in> set q)"

definition queue_insert :: "queue \<Rightarrow> nat \<Rightarrow> queue" where
  "queue_insert q n = q @ [n]"

definition queue_removeMin :: "queue \<Rightarrow> nat \<times> queue" where
  "queue_removeMin q = (hd q, tl q)"

definition queue_build :: "nat list \<Rightarrow> queue" where
  "queue_build ns = ns"

subsection \<open>The solver\<close>

record Stats =
  NbRestarts :: int
  NbConflicts :: int
  NbDecisions :: int
  NbUnitLearned :: int
  NbBinaryLearned :: int
  NbLearned :: int
  NbDeleted :: int

text \<open>
  Modelled from the spec: the type \<^verbatim>\<open>watcherList\<close> is not among the sources. The driver
  reads its fields \<^verbatim>\<open>pbClauses\<close>, \<^verbatim>\<open>learned\<close>, \<^verbatim>\<open>idxReduce\<close> and \<^verbatim>\<open>nbMax\<close>; the lists of
  watchers for each literal (section 4.3) are the abstract component \<open>watches\<close>.
\<close>

record 'w watcherList =
  pbClauses :: "cref list"
  learned :: "cref list"
  idxReduce :: int
  nbMax :: int
  watches :: 'w

text \<open>
  \<^verbatim>\<open>type Solver struct\<close>. Go's pointers to clauses are references into the store
  \<open>clauses\<close>; \<open>nextRef\<close> is the next free reference. A \<^verbatim>\<open>nil\<close> slice or pointer is
  \<open>None\<close>. \<open>'l\<close> is the type of the restart statistics \<^verbatim>\<open>lbdStats\<close>.
\<close>

record ('l, 'w) Solver =
  nbVars :: nat
  status :: Status
  wl :: "'w watcherList"
  trail :: "Lit list"
  model :: "decLevel list"
  lastModel :: "decLevel list option"
  polarity :: "bool list"
  reason :: "cref option list"
  varQueue :: queue
  lbdStats :: 'l
  Stats :: Stats
  minLits :: "Lit list option"
  minWeights :: "int list option"
  asumptions :: "Lit list"
  localNbRestarts :: int
  clauses :: "cref \<Rightarrow> Clause"
  nextRef :: cref

text \<open>
  The methods of the solver that are declared in other files, and the methods of
  \<^verbatim>\<open>lbdStats\<close>. \<^verbatim>\<open>unifyLiteral\<close> returns the conflicting clause, if any; \<^verbatim>\<open>learnClause\<close>
  returns the learned clause (\<open>None\<close> when a unit was learned) and the literal.
  \<^verbatim>\<open>watchClause\<close> and \<^verbatim>\<open>tryUnwatchClause\<close> work on the watcher lists of the literals.
\<close>

record ('l, 'w) ops =
  unifyLiteral :: "('l, 'w) Solver \<Rightarrow> Lit \<Rightarrow> decLevel \<Rightarrow> cref option \<times> ('l, 'w) Solver"
  learnClause :: "('l, 'w) Solver \<Rightarrow> cref \<Rightarrow> decLevel \<Rightarrow> (cref option \<times> Lit) \<times> ('l, 'w) Solver"
  reduceLearned :: "('l, 'w) Solver \<Rightarrow> ('l, 'w) Solver"
  bumpNbMax :: "('l, 'w) Solver \<Rightarrow> ('l, 'w) Solver"
  mustRestart :: "'l \<Rightarrow> bool"
  lbd_clear :: "'l \<Rightarrow> 'l"
  addConflict :: "'l \<Rightarrow> nat \<Rightarrow> 'l"
  addLbd :: "'l \<Rightarrow> int \<Rightarrow> 'l"
  watchClause :: "'w \<Rightarrow> cref \<Rightarrow> Clause \<Rightarrow> 'w"
  tryUnwatchClause :: "'w \<Rightarrow> cref \<Rightarrow> Clause \<Rightarrow> 'w"

subsection \<open>Bindings\<close>

text \<open>
  Indexing follows the slices of the source: \<^verbatim>\<open>model\<close>, \<^verbatim>\<open>polarity\<close> and \<^verbatim>\<open>reason\<close> have one
  entry for each variable, and Go panics on an index out of range. The theorems that read
  an entry assume the index in range.
\<close>

definition litStatus :: "('l, 'w) Solver \<Rightarrow> Lit \<Rightarrow> Status" where
  "litStatus s l =
     (let assign = model s ! lit_Var l
      in if assign = 0 then Indet
         else if (assign > 0) = IsPositive l then Sat
         else Unsat)"

text \<open>
  \<^verbatim>\<open>chooseLit\<close>: take variables out of the queue until one is unbound. \<open>chooseVar\<close> is
  the loop, with \<open>None\<close> for the value \<^verbatim>\<open>Var(-1)\<close>.
\<close>

function chooseVar :: "decLevel list \<Rightarrow> queue \<Rightarrow> Var option \<times> queue" where
  "chooseVar m q =
     (if queue_empty q then (None, q)
      else (let (v2, q') = queue_removeMin q
            in if m ! v2 = 0 then (Some v2, q') else chooseVar m q'))"
  by pat_completeness auto
termination
  by (relation "measure (\<lambda>(m, q). length q)")
     (auto simp: queue_removeMin_def queue_empty_def)

declare chooseVar.simps [simp del]

definition chooseLit :: "('l, 'w) Solver \<Rightarrow> Lit \<times> ('l, 'w) Solver" where
  "chooseLit s =
     (case chooseVar (model s) (varQueue s) of
        (None, q) \<Rightarrow> (- 1, s\<lparr>varQueue := q\<rparr>)
      | (Some v, q) \<Rightarrow>
          (SignedLit v (\<not> polarity s ! v),
           s\<lparr>varQueue := q, Stats := (Stats s)\<lparr>NbDecisions := NbDecisions (Stats s) + 1\<rparr>\<rparr>))"

text \<open>\<^verbatim>\<open>resetOptimPolarity\<close>: the literals of the objective are tried false first.\<close>

definition resetOptimPolarity :: "('l, 'w) Solver \<Rightarrow> ('l, 'w) Solver" where
  "resetOptimPolarity s =
     (case minLits s of
        None \<Rightarrow> s
      | Some ls \<Rightarrow>
          s\<lparr>polarity := foldl (\<lambda>p l. p[lit_Var l := \<not> IsPositive l]) (polarity s) ls\<rparr>)"

text \<open>
  \<^verbatim>\<open>cleanupBindings\<close>. \<open>unbind\<close> is the body of the inner loop, for one literal of the
  trail, with the list \<^verbatim>\<open>toInsert\<close>. \<open>cleanup_scan\<close> is the outer loop: at the first
  literal of the trail bound above \<open>lvl\<close> it unbinds that literal and all that follow,
  cuts the trail there and stops.
\<close>

definition unbind :: "('l, 'w) Solver \<times> nat list \<Rightarrow> Lit \<Rightarrow> ('l, 'w) Solver \<times> nat list" where
  "unbind st lit2 =
     (let s = fst st; toInsert = snd st;
          v = lit_Var lit2;
          s1 = s\<lparr>model := (model s)[v := 0]\<rparr>;
          s2 = (case reason s1 ! v of
                  None \<Rightarrow> s1
                | Some c \<Rightarrow> s1\<lparr>clauses := (clauses s1)(c := unlock (clauses s1 c)),
                                reason := (reason s1)[v := None]\<rparr>);
          s3 = s2\<lparr>polarity := (polarity s2)[v := IsPositive lit2]\<rparr>
      in if \<not> queue_contains (varQueue s3) v
         then (s3\<lparr>varQueue := queue_insert (varQueue s3) v\<rparr>, toInsert @ [v])
         else (s3, toInsert))"

fun cleanup_scan :: "('l, 'w) Solver \<Rightarrow> decLevel \<Rightarrow> nat \<Rightarrow> Lit list \<Rightarrow> ('l, 'w) Solver \<times> nat list" where
  "cleanup_scan s lvl i [] = (s, [])"
| "cleanup_scan s lvl i (lit # rest) =
     (if abs_lvl (model s ! lit_Var lit) > lvl
      then (let (s', toInsert) = foldl unbind (s, []) (lit # rest)
            in (s'\<lparr>trail := take i (trail s')\<rparr>, toInsert))
      else cleanup_scan s lvl (Suc i) rest)"

definition cleanupBindings :: "('l, 'w) Solver \<Rightarrow> decLevel \<Rightarrow> ('l, 'w) Solver" where
  "cleanupBindings s lvl =
     (let (s1, toInsert) = cleanup_scan s lvl 0 (trail s);
          s2 = s1\<lparr>varQueue := foldl queue_insert (varQueue s1) (rev toInsert)\<rparr>
      in resetOptimPolarity s2)"

text \<open>\<^verbatim>\<open>backtrackData\<close>: the level to backtrack to and the literal to bind.\<close>

definition backtrackData :: "Clause \<Rightarrow> decLevel list \<Rightarrow> decLevel \<times> Lit" where
  "backtrackData c m = (abs_lvl (m ! lit_Var (Get c 1)), Get c 0)"

text \<open>
  \<^verbatim>\<open>rebuildOrderHeap\<close>. \<^verbatim>\<open>make([]int, s.nbVars)\<close> is a slice of \<open>nbVars\<close> zeros, and the
  free variables are appended to it.
\<close>

definition rebuildOrderHeap :: "('l, 'w) Solver \<Rightarrow> ('l, 'w) Solver" where
  "rebuildOrderHeap s =
     (let ints = replicate (nbVars s) 0 @ filter (\<lambda>v. model s ! v = 0) [0..<nbVars s]
      in s\<lparr>varQueue := queue_build ints\<rparr>)"

subsection \<open>Top-level simplification\<close>





subsection \<open>Attaching clauses\<close>

text \<open>
  Modelled from the spec: \<^verbatim>\<open>appendClause\<close> and \<^verbatim>\<open>addLearned\<close> are not among the sources.
  Sections 3 and 4.10: a problem constraint is attached to the problem database and
  watched; a learned one goes to the learned database, which is kept apart.
\<close>

definition appendClause :: "('l, 'w) ops \<Rightarrow> ('l, 'w) Solver \<Rightarrow> cref \<Rightarrow> ('l, 'w) Solver" where
  "appendClause ops s c =
     s\<lparr>wl := (wl s)\<lparr>pbClauses := pbClauses (wl s) @ [c],
                      watches := watchClause ops (watches (wl s)) c (clauses s c)\<rparr>\<rparr>"

definition addLearned :: "('l, 'w) ops \<Rightarrow> ('l, 'w) Solver \<Rightarrow> cref \<Rightarrow> ('l, 'w) Solver" where
  "addLearned ops s c =
     s\<lparr>wl := (wl s)\<lparr>learned := learned (wl s) @ [c],
                      watches := watchClause ops (watches (wl s)) c (clauses s c)\<rparr>\<rparr>"

text \<open>A fresh clause object: \<^verbatim>\<open>NewClause\<close> and \<^verbatim>\<open>NewPBClause\<close> return a new pointer.\<close>

definition newRef :: "('l, 'w) Solver \<Rightarrow> Clause \<Rightarrow> cref \<times> ('l, 'w) Solver" where
  "newRef s c = (nextRef s, s\<lparr>clauses := (clauses s)(nextRef s := c), nextRef := Suc (nextRef s)\<rparr>)"

subsection \<open>Search\<close>

text \<open>
  \<^verbatim>\<open>propagateAndSearch\<close>. The loop runs until a model is found, a restart is due or a
  conflict at top level shows the problem unsatisfiable; with arbitrary operations it
  need not end, so the function is partial and \<open>None\<close> stands for a run that does not
  return. The division is Go's on non-negative numbers; \<^verbatim>\<open>nbMax\<close> starts at 2000 and
  only grows.
\<close>

definition incConflicts :: "('l, 'w) Solver \<Rightarrow> ('l, 'w) Solver" where
  "incConflicts s = s\<lparr>Stats := (Stats s)\<lparr>NbConflicts := NbConflicts (Stats s) + 1\<rparr>\<rparr>"

definition incUnitLearned :: "('l, 'w) Solver \<Rightarrow> ('l, 'w) Solver" where
  "incUnitLearned s = s\<lparr>Stats := (Stats s)\<lparr>NbUnitLearned := NbUnitLearned (Stats s) + 1\<rparr>\<rparr>"

definition incBinaryLearned :: "('l, 'w) Solver \<Rightarrow> ('l, 'w) Solver" where
  "incBinaryLearned s = s\<lparr>Stats := (Stats s)\<lparr>NbBinaryLearned := NbBinaryLearned (Stats s) + 1\<rparr>\<rparr>"

definition incLearned :: "('l, 'w) Solver \<Rightarrow> ('l, 'w) Solver" where
  "incLearned s = s\<lparr>Stats := (Stats s)\<lparr>NbLearned := NbLearned (Stats s) + 1\<rparr>\<rparr>"

definition incRestarts :: "('l, 'w) Solver \<Rightarrow> ('l, 'w) Solver" where
  "incRestarts s = s\<lparr>Stats := (Stats s)\<lparr>NbRestarts := NbRestarts (Stats s) + 1\<rparr>\<rparr>"

text \<open>The branch without conflict, after the restart test: reduce the learned clauses when due.\<close>

definition reduceIfDue :: "('l, 'w) ops \<Rightarrow> ('l, 'w) Solver \<Rightarrow> ('l, 'w) Solver" where
  "reduceIfDue ops s =
     (if NbConflicts (Stats s) \<ge> idxReduce (wl s) * nbMax (wl s)
      then bumpNbMax ops (reduceLearned ops
             (s\<lparr>wl := (wl s)\<lparr>idxReduce := NbConflicts (Stats s) div nbMax (wl s) + 1\<rparr>\<rparr>))
      else s)"

text \<open>The branch of a learned unit, up to the second \<^verbatim>\<open>unifyLiteral\<close>.\<close>

definition bindUnit :: "('l, 'w) ops \<Rightarrow> ('l, 'w) Solver \<Rightarrow> Lit \<Rightarrow> cref option \<times> ('l, 'w) Solver" where
  "bindUnit ops s unit =
     (let s1 = incUnitLearned s;
          s2 = s1\<lparr>lbdStats := addLbd ops (lbdStats s1) 1\<rparr>;
          s3 = cleanupBindings s2 1;
          s4 = s3\<lparr>model := (model s3)[lit_Var unit := lvlToSignedLvl unit 1]\<rparr>
      in unifyLiteral ops s4 unit 1)"

text \<open>The branch of a learned clause: attach it, backtrack, and make it the reason of its first literal.\<close>

definition backjump :: "('l, 'w) ops \<Rightarrow> ('l, 'w) Solver \<Rightarrow> cref \<Rightarrow> (decLevel \<times> Lit) \<times> ('l, 'w) Solver" where
  "backjump ops s learnt =
     (let s1 = (if Len (clauses s learnt) = 2 then incBinaryLearned s else s);
          s2 = incLearned s1;
          s3 = s2\<lparr>lbdStats := addLbd ops (lbdStats s2) (lbdValue (clauses s2 learnt))\<rparr>;
          s4 = addLearned ops s3 learnt;
          (lvl, lit) = backtrackData (clauses s4 learnt) (model s4);
          s5 = cleanupBindings s4 lvl;
          s6 = s5\<lparr>reason := (reason s5)[lit_Var lit := Some learnt]\<rparr>;
          s7 = s6\<lparr>clauses := (clauses s6)(learnt := lock (clauses s6 learnt))\<rparr>
      in ((lvl, lit), s7))"

partial_function (option) propagateAndSearch ::
  "('l, 'w) ops \<Rightarrow> ('l, 'w) Solver \<Rightarrow> Lit \<Rightarrow> decLevel \<Rightarrow> (Status \<times> ('l, 'w) Solver) option" where
  "propagateAndSearch ops s lit lvl =
     (if lit \<noteq> - 1 then
        (case unifyLiteral ops s lit lvl of
           (None, s1) \<Rightarrow>
             if mustRestart ops (lbdStats s1)
             then Some (Indet, cleanupBindings (s1\<lparr>lbdStats := lbd_clear ops (lbdStats s1)\<rparr>) 1)
             else (case chooseLit (reduceIfDue ops s1) of
                     (lit', s2) \<Rightarrow> propagateAndSearch ops s2 lit' (lvl + 1))
         | (Some conflict, s1) \<Rightarrow>
             (let s2 = incConflicts s1;
                  s3 = s2\<lparr>lbdStats := addConflict ops (lbdStats s2) (length (trail s2))\<rparr>
              in case learnClause ops s3 conflict lvl of
                   ((None, unit), s4) \<Rightarrow>
                     (case bindUnit ops s4 unit of
                        (Some conflict', s5) \<Rightarrow> Some (Unsat, s5\<lparr>status := Unsat\<rparr>)
                      | (None, s5) \<Rightarrow>
                          (case chooseLit (rebuildOrderHeap s5) of
                             (lit', s6) \<Rightarrow> propagateAndSearch ops s6 lit' 2))
                 | ((Some learnt, unit), s4) \<Rightarrow>
                     (case backjump ops s4 learnt of
                        ((lvl', lit'), s5) \<Rightarrow> propagateAndSearch ops s5 lit' lvl')))
      else Some (Sat, s))"

text \<open>\<^verbatim>\<open>search\<close>: one round, until a restart is needed.\<close>

definition search :: "('l, 'w) ops \<Rightarrow> ('l, 'w) Solver \<Rightarrow> (Status \<times> ('l, 'w) Solver) option" where
  "search ops s =
     (let s1 = s\<lparr>localNbRestarts := localNbRestarts s + 1\<rparr>
      in case chooseLit s1 of
           (lit, s2) \<Rightarrow>
             (case propagateAndSearch ops s2 lit 2 of
                None \<Rightarrow> None
              | Some (st, s3) \<Rightarrow> Some (st, s3\<lparr>status := st\<rparr>)))"

text \<open>
  \<^verbatim>\<open>Solve\<close>. \<open>Solve_loop\<close> is the loop \<^verbatim>\<open>for s.status == Indet\<close>, with a restart after
  each round that ends undecided.
\<close>

partial_function (option) Solve_loop :: "('l, 'w) ops \<Rightarrow> ('l, 'w) Solver \<Rightarrow> ('l, 'w) Solver option" where
  "Solve_loop ops s =
     (if status s = Indet then
        (case search ops s of
           None \<Rightarrow> None
         | Some (st, s1) \<Rightarrow>
             if status s1 = Indet then Solve_loop ops (rebuildOrderHeap (incRestarts s1))
             else Solve_loop ops s1)
      else Some s)"

definition Solve :: "('l, 'w) ops \<Rightarrow> ('l, 'w) Solver \<Rightarrow> (Status \<times> ('l, 'w) Solver) option" where
  "Solve ops s =
     (if status s = Unsat then Some (status s, s)
      else (case Solve_loop ops (s\<lparr>status := Indet, localNbRestarts := 0\<rparr>) of
              None \<Rightarrow> None
            | Some s1 \<Rightarrow>
                (let s2 = (if status s1 = Sat then s1\<lparr>lastModel := Some (model s1)\<rparr> else s1)
                 in Some (status s2, s2))))"

subsection \<open>Appending a clause\<close>

text \<open>\<^verbatim>\<open>propagateUnits\<close>: bind each unit at level 1; a conflict makes the problem unsatisfiable.\<close>

fun propagateUnits :: "('l, 'w) ops \<Rightarrow> ('l, 'w) Solver \<Rightarrow> Lit list \<Rightarrow> ('l, 'w) Solver" where
  "propagateUnits ops s [] = s"
| "propagateUnits ops s (unit # units) =
     (let s1 = s\<lparr>lbdStats := addLbd ops (lbdStats s) 1\<rparr>;
          s2 = incUnitLearned s1;
          s3 = cleanupBindings s2 1;
          s4 = s3\<lparr>model := (model s3)[lit_Var unit := lvlToSignedLvl unit 1]\<rparr>
      in case unifyLiteral ops s4 unit 1 of
           (Some conflict, s5) \<Rightarrow> s5\<lparr>status := Unsat\<rparr>
         | (None, s5) \<Rightarrow> propagateUnits ops (rebuildOrderHeap s5) units)"

text \<open>
  The loop of \<^verbatim>\<open>AppendClause\<close> over the literals of the clause: a satisfied literal is
  taken out and its weight subtracted from the cardinality, a falsified one is taken out,
  a free one is kept.
\<close>

function AppendClause_loop ::
  "('l, 'w) Solver \<Rightarrow> Clause \<Rightarrow> nat \<Rightarrow> int \<Rightarrow> int \<Rightarrow> Clause \<times> int \<times> int" where
  "AppendClause_loop s clause i minW maxW =
     (if i < Len clause then
        (case litStatus s (Get clause i) of
           Sat \<Rightarrow>
             (let w = Weight clause i
              in AppendClause_loop s (updateCardinality (removeLit clause i) (- w)) i
                   (minW + w) (maxW + w))
         | Unsat \<Rightarrow> AppendClause_loop s (removeLit clause i) i minW maxW
         | Indet \<Rightarrow> AppendClause_loop s clause (Suc i) minW (maxW + Weight clause i))
      else (clause, minW, maxW))"
  by pat_completeness auto
termination
  by (relation "measure (\<lambda>(s, clause, i, minW, maxW). Len clause - i)")
     (auto simp: Len_def removeLit_def updateCardinality_def remove_nth_def)

declare AppendClause_loop.simps [simp del]

definition AppendClause :: "('l, 'w) ops \<Rightarrow> ('l, 'w) Solver \<Rightarrow> cref \<Rightarrow> ('l, 'w) Solver" where
  "AppendClause ops s c =
     (let s1 = cleanupBindings s 1;
          clause = clauses s1 c;
          card = Cardinality clause;
          (clause', minW, maxW) = AppendClause_loop s1 clause 0 0 0;
          s2 = s1\<lparr>clauses := (clauses s1)(c := clause')\<rparr>
      in if minW \<ge> card then s2
         else if maxW < card then s2\<lparr>status := Unsat\<rparr>
         else if maxW = card then propagateUnits ops s2 (lits clause')
         else appendClause ops s2 c)"

text \<open>
  The words of the specification for \<^verbatim>\<open>AppendClause\<close> (section 4.10), to compare the loop
  with: the terms of a constraint (its literals with their weights, 1 where it has none),
  the weight already satisfied, the weight still free, and the reduced constraint, which
  keeps the free literals and asks for the cardinality less the satisfied weight.
\<close>

definition clauseTerms :: "Clause \<Rightarrow> (Lit \<times> int) list" where
  "clauseTerms c =
     zip (lits c) (case litWeights c of None \<Rightarrow> replicate (length (lits c)) 1 | Some ws \<Rightarrow> ws)"

definition satisfiedWeight :: "('l, 'w) Solver \<Rightarrow> Clause \<Rightarrow> int" where
  "satisfiedWeight s c = sum_list (map snd (filter (\<lambda>p. litStatus s (fst p) = Sat) (clauseTerms c)))"

definition freeWeight :: "('l, 'w) Solver \<Rightarrow> Clause \<Rightarrow> int" where
  "freeWeight s c = sum_list (map snd (filter (\<lambda>p. litStatus s (fst p) = Indet) (clauseTerms c)))"

definition reducedClause :: "('l, 'w) Solver \<Rightarrow> Clause \<Rightarrow> Clause" where
  "reducedClause s c =
     c\<lparr>lits := filter (\<lambda>l. litStatus s l = Indet) (lits c),
       litWeights := map_option (\<lambda>ws. map snd (filter (\<lambda>p. litStatus s (fst p) = Indet) (zip (lits c) ws)))
                       (litWeights c),
       cardinality := cardinality c - satisfiedWeight s c\<rparr>"

subsection \<open>Models\<close>

text \<open>
  \<^verbatim>\<open>Model\<close> and \<^verbatim>\<open>ModelMap\<close>. Both panic when \<^verbatim>\<open>lastModel\<close> is \<^verbatim>\<open>nil\<close>. \<^verbatim>\<open>Model\<close> writes
  into a slice of \<open>nbVars\<close> entries, so a longer \<^verbatim>\<open>lastModel\<close> is an index out of range;
  \<^verbatim>\<open>ModelMap\<close> writes into a map, with the keys \<open>1, 2, ...\<close>.
\<close>

definition Model :: "('l, 'w) Solver \<Rightarrow> error + bool list" where
  "Model s =
     (case lastModel s of
        None \<Rightarrow> Inl (Panic ''cannot call Model() from a non-Sat solver'')
      | Some m \<Rightarrow>
          if length m > nbVars s then Inl (Panic ''index out of range'')
          else Inr (map (\<lambda>lvl. lvl > 0) m @ replicate (nbVars s - length m) False))"

definition ModelMap :: "('l, 'w) Solver \<Rightarrow> error + (int \<rightharpoonup> bool)" where
  "ModelMap s =
     (case lastModel s of
        None \<Rightarrow> Inl (Panic ''cannot call ModelMap() from a non-Sat solver'')
      | Some m \<Rightarrow>
          Inr (\<lambda>k. if 1 \<le> k \<and> k \<le> int (length m) then Some (m ! nat (k - 1) > 0) else None))"

text \<open>Go's \<^verbatim>\<open>copy(dst, src)\<close>: as many elements as both slices have.\<close>

definition go_copy :: "'a list \<Rightarrow> 'a list \<Rightarrow> 'a list" where
  "go_copy dst src =
     (let n = min (length dst) (length src) in take n src @ drop n dst)"

text \<open>\<^verbatim>\<open>copy(s.lastModel, s.model)\<close>; nothing is copied into a \<^verbatim>\<open>nil\<close> slice.\<close>

definition saveModel :: "('l, 'w) Solver \<Rightarrow> ('l, 'w) Solver" where
  "saveModel s = s\<lparr>lastModel := map_option (\<lambda>lm. go_copy lm (model s)) (lastModel s)\<rparr>"

subsection \<open>Enumeration\<close>

text \<open>
  \<^verbatim>\<open>decisionLits\<close>: the negation of every decision, in the slot of its level. The read of
  the last literal of the trail panics on an empty trail, \<^verbatim>\<open>make\<close> on a negative length,
  the write on a slot beyond the level of the last literal of the trail.
\<close>

fun decisionLits_loop :: "('l, 'w) Solver \<Rightarrow> nat list \<Rightarrow> Lit list \<Rightarrow> error + Lit list" where
  "decisionLits_loop s [] ls = Inr ls"
| "decisionLits_loop s (i # is) ls =
     (let lvl = abs_lvl (model s ! i)
      in if reason s ! i = None \<and> lvl > 1 then
           (if lvl - 2 \<ge> int (length ls) then Inl (Panic ''index out of range'')
            else decisionLits_loop s is
                   (ls[nat (lvl - 2) := (if model s ! i < 0 then IntToLit (int i + 1)
                                         else IntToLit (- int i - 1))]))
         else decisionLits_loop s is ls)"

definition decisionLits :: "('l, 'w) Solver \<Rightarrow> error + Lit list" where
  "decisionLits s =
     (if trail s = [] then Inl (Panic ''index out of range'')
      else (let lastLit = trail s ! (length (trail s) - 1);
                lvls = abs_lvl (model s ! lit_Var lastLit)
            in if lvls - 1 < 0 then Inl (Panic ''makeslice: len out of range'')
               else decisionLits_loop s [0..<length (reason s)] (replicate (nat (lvls - 1)) 0)))"

text \<open>
  What \<^verbatim>\<open>Enumerate\<close> and \<^verbatim>\<open>CountModels\<close> do after a model was found and counted (the same
  text in both): forbid the model through its decisions.
\<close>

definition blockModel :: "('l, 'w) ops \<Rightarrow> ('l, 'w) Solver \<Rightarrow> (error + ('l, 'w) Solver) option" where
  "blockModel ops s =
     (let s1 = s\<lparr>status := Indet\<rparr>
      in case decisionLits s1 of
           Inl e \<Rightarrow> Some (Inl e)
         | Inr ls \<Rightarrow>
             if length ls = 0 then Some (Inr (s1\<lparr>status := Unsat\<rparr>))
             else if length ls = 1 then Some (Inr (propagateUnits ops s1 ls))
             else (let (c, s2) = newRef s1 (NewClause ls);
                       s3 = appendClause ops s2 c;
                       lit = ls ! (length ls - 1);
                       v = lit_Var lit;
                       lvl = abs_lvl (model s3 ! v) - 1;
                       s4 = cleanupBindings s3 lvl;
                       s5 = s4\<lparr>reason := (reason s4)[v := Some c]\<rparr>
                   in case propagateAndSearch ops s5 lit lvl of
                        None \<Rightarrow> None
                      | Some (st, s6) \<Rightarrow> Some (Inr s6)))"


text \<open>The inner loop of both: search until the status is decided.\<close>

partial_function (option) searchAll :: "('l, 'w) ops \<Rightarrow> ('l, 'w) Solver \<Rightarrow> ('l, 'w) Solver option" where
  "searchAll ops s =
     (if status s = Indet then
        (case search ops s of
           None \<Rightarrow> None
         | Some (st, s1) \<Rightarrow>
             if status s1 = Indet then searchAll ops (incRestarts s1) else searchAll ops s1)
      else Some s)"

text \<open>
  The outer loop of \<^verbatim>\<open>Enumerate\<close>. \<open>emit\<close> says that the channel \<^verbatim>\<open>models\<close> is not
  \<^verbatim>\<open>nil\<close>; \<open>out\<close> collects what is sent on it, in order.
\<close>

partial_function (option) Enumerate_loop ::
  "('l, 'w) ops \<Rightarrow> bool \<Rightarrow> ('l, 'w) Solver \<Rightarrow> int \<Rightarrow> (int \<rightharpoonup> bool) list
   \<Rightarrow> (error + int \<times> (int \<rightharpoonup> bool) list \<times> ('l, 'w) Solver) option" where
  "Enumerate_loop ops emit s nb out =
     (if status s \<noteq> Unsat then
        (case searchAll ops s of
           None \<Rightarrow> None
         | Some s1 \<Rightarrow>
             if status s1 = Sat then
               (if emit then
                  (case ModelMap (saveModel s1) of
                     Inl e \<Rightarrow> Some (Inl e)
                   | Inr mm \<Rightarrow>
                       (case blockModel ops (saveModel s1) of
                          None \<Rightarrow> None
                        | Some (Inl e) \<Rightarrow> Some (Inl e)
                        | Some (Inr s2) \<Rightarrow> Enumerate_loop ops emit s2 (nb + 1) (out @ [mm])))
                else
                  (case blockModel ops s1 of
                     None \<Rightarrow> None
                   | Some (Inl e) \<Rightarrow> Some (Inl e)
                   | Some (Inr s2) \<Rightarrow> Enumerate_loop ops emit s2 (nb + 1) out))
             else Enumerate_loop ops emit s1 nb out)
      else Some (Inr (nb, out, s)))"

definition Enumerate ::
  "('l, 'w) ops \<Rightarrow> bool \<Rightarrow> ('l, 'w) Solver
   \<Rightarrow> (error + int \<times> (int \<rightharpoonup> bool) list \<times> ('l, 'w) Solver) option" where
  "Enumerate ops emit s =
     (let s1 = s\<lparr>lastModel := Some (replicate (length (model s)) 0)\<rparr>
      in case chooseLit s1 of (lit, s2) \<Rightarrow> Enumerate_loop ops emit s2 0 [])"

text \<open>\<^verbatim>\<open>CountModels\<close>: the same loop, with no channel and without the new \<^verbatim>\<open>lastModel\<close>.\<close>

definition CountModels :: "('l, 'w) ops \<Rightarrow> ('l, 'w) Solver \<Rightarrow> (error + int \<times> ('l, 'w) Solver) option" where
  "CountModels ops s =
     (case chooseLit s of
        (lit, s1) \<Rightarrow>
          (case Enumerate_loop ops False s1 0 [] of
             None \<Rightarrow> None
           | Some (Inl e) \<Rightarrow> Some (Inl e)
           | Some (Inr (nb, out, s2)) \<Rightarrow> Some (Inr (nb, s2))))"

subsection \<open>Optimisation\<close>

text \<open>
  \<^verbatim>\<open>type Result\<close> is declared in another file; \<^verbatim>\<open>Optimal\<close> fills its fields \<^verbatim>\<open>Status\<close>,
  \<^verbatim>\<open>Model\<close> and \<^verbatim>\<open>Weight\<close>. The zero value has status \<open>Indet\<close>, no model and weight 0.
\<close>

record Result =
  res_Status :: Status
  res_Model :: "(int \<rightharpoonup> bool) option"
  res_Weight :: int

text \<open>The sum of the weights of the objective: its number of literals when there are no weights.\<close>

definition maxCostOf :: "('l, 'w) Solver \<Rightarrow> int" where
  "maxCostOf s =
     (case minWeights s of
        None \<Rightarrow> int (length (case minLits s of None \<Rightarrow> [] | Some ls \<Rightarrow> ls))
      | Some ws \<Rightarrow> sum_list ws)"

text \<open>The cost of the current bindings: the weights of the objective literals that are true.\<close>

definition costOf :: "('l, 'w) Solver \<Rightarrow> int" where
  "costOf s =
     (case minLits s of
        None \<Rightarrow> 0
      | Some ls \<Rightarrow>
          sum_list (map (\<lambda>i. if (model s ! lit_Var (ls ! i) > 0) = IsPositive (ls ! i)
                              then (case minWeights s of None \<Rightarrow> 1 | Some ws \<Rightarrow> ws ! i)
                              else 0)
                        [0..<length ls]))"

text \<open>
  \<^verbatim>\<open>sort.Sort(wLits{lits, weights})\<close>: the literals and their weights, by decreasing
  weight. \<^verbatim>\<open>Less\<close> reads \<^verbatim>\<open>weights[i]\<close> for indices below \<^verbatim>\<open>len(lits)\<close>, and a sort of two
  elements or more compares each of them: it panics when the weights are fewer than the
  literals, as they are for an objective without weights. Go's sort is not stable; the
  model takes the stable sort, and the theorems use only that the result is a permutation.
\<close>

definition sortWLits :: "Lit list \<Rightarrow> int list \<Rightarrow> error + Lit list \<times> int list" where
  "sortWLits ls ws =
     (if length ls \<le> 1 then Inr (ls, ws)
      else if length ws < length ls then Inl (Panic ''index out of range'')
      else (let ps = sort_key (\<lambda>p. - snd p) (zip ls (take (length ls) ws))
            in Inr (map fst ps, map snd ps @ drop (length ls) ws)))"

text \<open>
  The end of an iteration of the loop of \<^verbatim>\<open>Optimal\<close> and of \<^verbatim>\<open>Minimize\<close> (the same text in
  both): forbid the cost just found and solve again.
\<close>

definition tighten ::
  "('l, 'w) ops \<Rightarrow> ('l, 'w) Solver \<Rightarrow> int list \<Rightarrow> int \<Rightarrow> int \<Rightarrow> (Status \<times> ('l, 'w) Solver) option" where
  "tighten ops s weights maxCost cost =
     (let lits2 = go_copy (replicate (length (case minLits s of None \<Rightarrow> [] | Some ls \<Rightarrow> ls)) 0)
                    (asumptions s);
          weights2 = go_copy (replicate (length (case minWeights s of None \<Rightarrow> [] | Some ws \<Rightarrow> ws)) 0)
                       weights;
          (c, s1) = newRef s (NewPBClause lits2 weights2 (maxCost - cost + 1));
          s2 = AppendClause ops s1 c;
          s3 = rebuildOrderHeap s2
      in Solve ops s3)"

text \<open>
  The loop of \<^verbatim>\<open>Optimal\<close>, entered with status \<open>Sat\<close>. \<open>out\<close> collects the results sent
  on the channel \<^verbatim>\<open>models\<close>, in order; the channel is taken to be there and read.
\<close>

partial_function (option) Optimal_loop ::
  "('l, 'w) ops \<Rightarrow> int list \<Rightarrow> int \<Rightarrow> ('l, 'w) Solver \<Rightarrow> Result list
   \<Rightarrow> (error + Result \<times> Result list \<times> ('l, 'w) Solver) option" where
  "Optimal_loop ops weights maxCost s out =
     (let s1 = saveModel s;
          cost = costOf s1
      in case ModelMap s1 of
           Inl e \<Rightarrow> Some (Inl e)
         | Inr mm \<Rightarrow>
             (let res = \<lparr>res_Status = Sat, res_Model = Some mm, res_Weight = cost\<rparr>
              in if cost = 0 then Some (Inr (res, out @ [res], s1))
                 else (case tighten ops s1 weights maxCost cost of
                         None \<Rightarrow> None
                       | Some (st, s2) \<Rightarrow>
                           if st = Sat then Optimal_loop ops weights maxCost s2 (out @ [res])
                           else Some (Inr (res, out @ [res], s2)))))"

definition Optimal ::
  "('l, 'w) ops \<Rightarrow> ('l, 'w) Solver \<Rightarrow> (error + Result \<times> Result list \<times> ('l, 'w) Solver) option" where
  "Optimal ops s =
     (case Solve ops s of
        None \<Rightarrow> None
      | Some (st, s1) \<Rightarrow>
          if st = Unsat
          then Some (Inr (\<lparr>res_Status = Unsat, res_Model = None, res_Weight = 0\<rparr>, [], s1))
          else (case minLits s1 of
                  None \<Rightarrow>
                    (let s2 = s1\<lparr>lastModel := Some (model s1)\<rparr>
                     in case ModelMap s2 of
                          Inl e \<Rightarrow> Some (Inl e)
                        | Inr mm \<Rightarrow>
                            Some (Inr (\<lparr>res_Status = Sat, res_Model = Some mm, res_Weight = 0\<rparr>, [], s2)))
                | Some ls \<Rightarrow>
                    (case sortWLits (map Negation ls)
                            (case minWeights s1 of None \<Rightarrow> [] | Some ws \<Rightarrow> ws) of
                       Inl e \<Rightarrow> Some (Inl e)
                     | Inr (asum, weights) \<Rightarrow>
                         (let s2 = s1\<lparr>asumptions := asum,
                                      lastModel := Some (replicate (length (model s1)) 0)\<rparr>
                          in if st = Sat then Optimal_loop ops weights (maxCostOf s1) s2 []
                             else Some (Inr (\<lparr>res_Status = Indet, res_Model = None, res_Weight = 0\<rparr>,
                                             [], s2))))))"

text \<open>The loop of \<^verbatim>\<open>Minimize\<close>, and \<^verbatim>\<open>Minimize\<close>.\<close>

partial_function (option) Minimize_loop ::
  "('l, 'w) ops \<Rightarrow> int list \<Rightarrow> int \<Rightarrow> ('l, 'w) Solver \<Rightarrow> (int \<times> ('l, 'w) Solver) option" where
  "Minimize_loop ops weights maxCost s =
     (let s1 = saveModel s;
          cost = costOf s1
      in if cost = 0 then Some (0, s1)
         else (case tighten ops s1 weights maxCost cost of
                 None \<Rightarrow> None
               | Some (st, s2) \<Rightarrow>
                   if st = Sat then Minimize_loop ops weights maxCost s2
                   else Some (cost, s2)))"

definition Minimize :: "('l, 'w) ops \<Rightarrow> ('l, 'w) Solver \<Rightarrow> (error + int \<times> ('l, 'w) Solver) option" where
  "Minimize ops s =
     (case Solve ops s of
        None \<Rightarrow> None
      | Some (st, s1) \<Rightarrow>
          if st = Unsat then Some (Inr (- 1, s1))
          else (case minLits s1 of
                  None \<Rightarrow> Some (Inr (0, s1))
                | Some ls \<Rightarrow>
                    (case sortWLits (map Negation ls)
                            (case minWeights s1 of None \<Rightarrow> [] | Some ws \<Rightarrow> ws) of
                       Inl e \<Rightarrow> Some (Inl e)
                     | Inr (asum, weights) \<Rightarrow>
                         (let s2 = s1\<lparr>asumptions := asum,
                                      lastModel := Some (replicate (length (model s1)) 0)\<rparr>
                          in if st = Sat
                             then map_option Inr (Minimize_loop ops weights (maxCostOf s1) s2)
                             else Some (Inr (0, s2))))))"

text \<open>
  What the operations taken as parameters leave alone: the number of variables, the
  length of the model, the saved model, the objective and the assumptions. Propagation,
  conflict analysis and the reduction of the learned clauses work on the bindings, the
  trail and the clause databases (sections 4.4 to 4.7 of the specification).
\<close>

definition keepsObjective :: "('l, 'w) Solver \<Rightarrow> ('l, 'w) Solver \<Rightarrow> bool" where
  "keepsObjective s s' \<longleftrightarrow>
     nbVars s' = nbVars s \<and> length (model s') = length (model s) \<and>
     lastModel s' = lastModel s \<and> minLits s' = minLits s \<and> minWeights s' = minWeights s \<and>
     asumptions s' = asumptions s"

definition opsKeepObjective :: "('l, 'w) ops \<Rightarrow> bool" where
  "opsKeepObjective ops \<longleftrightarrow>
     (\<forall>s lit lvl. keepsObjective s (snd (unifyLiteral ops s lit lvl))) \<and>
     (\<forall>s c lvl. keepsObjective s (snd (learnClause ops s c lvl))) \<and>
     (\<forall>s. keepsObjective s (reduceLearned ops s)) \<and>
     (\<forall>s. keepsObjective s (bumpNbMax ops s))"

text \<open>
  The words of the specification for the cost of a model (section 4.9): the sum of the
  weights of the objective literals that the model makes true, each weight 1 when the
  objective has no weights.
\<close>

definition objectiveCost :: "Lit list \<Rightarrow> int list option \<Rightarrow> bool list \<Rightarrow> int" where
  "objectiveCost ls mw bs =
     sum_list (map (\<lambda>i. if bs ! lit_Var (ls ! i) = IsPositive (ls ! i)
                         then (case mw of None \<Rightarrow> 1 | Some ws \<Rightarrow> ws ! i)
                         else 0)
                   [0..<length ls])"

subsection \<open>A problem without constraints\<close>

text \<open>
  The operations when nothing is watched, for running the drivers on examples: binding a
  literal pushes it on the trail, propagates nothing and meets no conflict, so nothing is
  learned, and no restart is asked for.
\<close>

definition free_unify ::
  "(unit, unit) Solver \<Rightarrow> Lit \<Rightarrow> decLevel \<Rightarrow> cref option \<times> (unit, unit) Solver" where
  "free_unify s lit lvl =
     (None, s\<lparr>model := (model s)[lit_Var lit := lvlToSignedLvl lit lvl],
               trail := trail s @ [lit]\<rparr>)"

definition free_ops :: "(unit, unit) ops" where
  "free_ops =
     \<lparr>unifyLiteral = free_unify,
      learnClause = (\<lambda>s c lvl. ((None, - 1), s)),
      reduceLearned = (\<lambda>s. s),
      bumpNbMax = (\<lambda>s. s),
      mustRestart = (\<lambda>l. False),
      lbd_clear = (\<lambda>l. l),
      addConflict = (\<lambda>l n. l),
      addLbd = (\<lambda>l n. l),
      watchClause = (\<lambda>w c cl. w),
      tryUnwatchClause = (\<lambda>w c cl. w)\<rparr>"

text \<open>A solver on \<open>n\<close> variables, all free, with no constraint and no objective.\<close>

definition free_solver :: "nat \<Rightarrow> (unit, unit) Solver" where
  "free_solver n =
     \<lparr>nbVars = n, status = Indet,
      wl = \<lparr>pbClauses = [], learned = [], idxReduce = 1, nbMax = 2000, watches = ()\<rparr>,
      trail = [], model = replicate n 0, lastModel = None,
      polarity = replicate n False, reason = replicate n None,
      varQueue = [0..<n], lbdStats = (),
      Stats = \<lparr>NbRestarts = 0, NbConflicts = 0, NbDecisions = 0, NbUnitLearned = 0,
               NbBinaryLearned = 0, NbLearned = 0, NbDeleted = 0\<rparr>,
      minLits = None, minWeights = None, asumptions = [], localNbRestarts = 0,
      clauses = (\<lambda>c. NewClause []), nextRef = 0\<rparr>"

text \<open>
  One variable, the unit \<open>x1\<close> bound at level 1, and the objective "minimise \<open>x1\<close>"
  with weight 1.
\<close>

definition unit_problem :: "(unit, unit) Solver" where
  "unit_problem =
     (free_solver 1)\<lparr>trail := [0], model := [1], minLits := Some [0], minWeights := Some [1]\<rparr>"


text \<open>
  Three variables: \<open>x1\<close> true at level 1, \<open>x2\<close> decided true at level 2, and \<open>x3\<close> false
  at level 2 by the clause \<open>\<not>x2 \<or> \<not>x3\<close> (reference 0), which is locked once as its reason.
\<close>

definition two_level_example :: "(unit, unit) Solver" where
  "two_level_example =
     (free_solver 3)\<lparr>trail := [0, 2, 5], model := [1, 2, - 2],
        reason := [None, None, Some 0], varQueue := [],
        wl := \<lparr>pbClauses = [0], learned = [], idxReduce = 1, nbMax = 2000, watches = ()\<rparr>,
        clauses := (\<lambda>c. if c = 0 then (NewClause [3, 5])\<lparr>lockCount := 1\<rparr> else NewClause []),
        nextRef := 1\<rparr>"



text \<open>
  The same problem at the head of the loop of \<^verbatim>\<open>Minimize\<close> and \<^verbatim>\<open>Optimal\<close>: solved once,
  with the assumption \<open>\<not>x1\<close> and a fresh \<^verbatim>\<open>lastModel\<close>.
\<close>

definition unit_problem_solved :: "(unit, unit) Solver" where
  "unit_problem_solved =
     unit_problem\<lparr>status := Sat, localNbRestarts := 1, varQueue := [],
                   lastModel := Some [0], asumptions := [1]\<rparr>"


text \<open>
  Two variables, the units \<open>x1\<close> and \<open>x2\<close> bound at level 1, and the objective
  "minimise \<open>x1 + x2\<close>" given without weights. Its only model costs 2.
\<close>

definition unweighted_example :: "(unit, unit) Solver" where
  "unweighted_example = (free_solver 2)\<lparr>trail := [0, 2], model := [1, 1], minLits := Some [0, 2]\<rparr>"
section \<open>Package solver: properties\<close>

subsection \<open>Evaluation on examples\<close>

lemma chooseVar_Nil: "chooseVar m [] = (None, [])"
  by (simp add: chooseVar.simps queue_empty_def)

lemma chooseVar_Cons:
  "chooseVar m (v # q) = (if m ! v = 0 then (Some v, q) else chooseVar m q)"
  by (subst chooseVar.simps) (simp add: queue_empty_def queue_removeMin_def)

lemmas lit_defs = lit_Var_def IsPositive_def Negation_def SignedLit_def IntToLit_def
  lvlToSignedLvl_def abs_lvl_def

lemma propagateAndSearch_no_lit: "propagateAndSearch ops s (- 1) lvl = Some (Sat, s)"
  by (subst propagateAndSearch.simps) simp

lemma Solve_loop_decided: "status s \<noteq> Indet \<Longrightarrow> Solve_loop ops s = Some s"
  by (subst Solve_loop.simps) simp

lemma Solve_loop_Indet:
  "status s = Indet \<Longrightarrow> Solve_loop ops s =
     (case search ops s of
        None \<Rightarrow> None
      | Some (st, s1) \<Rightarrow>
          if status s1 = Indet then Solve_loop ops (rebuildOrderHeap (incRestarts s1))
          else Solve_loop ops s1)"
  by (subst Solve_loop.simps) simp

lemma search_unit_problem:
  "search ops (unit_problem\<lparr>status := Indet, localNbRestarts := 0\<rparr>) =
     Some (Sat, unit_problem\<lparr>status := Sat, localNbRestarts := 1, varQueue := []\<rparr>)"
  by (simp add: search_def unit_problem_def free_solver_def chooseLit_def chooseVar_Cons
      chooseVar_Nil propagateAndSearch_no_lit Let_def)

lemma Solve_unit_problem:
  "Solve ops unit_problem =
     Some (Sat, unit_problem\<lparr>status := Sat, localNbRestarts := 1, varQueue := [],
                             lastModel := Some [1]\<rparr>)"
proof -
  have "status unit_problem \<noteq> Unsat" by (simp add: unit_problem_def free_solver_def)
  moreover have "Solve_loop ops (unit_problem\<lparr>status := Indet, localNbRestarts := 0\<rparr>) =
     Some (unit_problem\<lparr>status := Sat, localNbRestarts := 1, varQueue := []\<rparr>)"
    by (simp add: Solve_loop_Indet search_unit_problem Solve_loop_decided)
  ultimately show ?thesis
    by (simp add: Solve_def unit_problem_def free_solver_def)
qed

text \<open>
  C9. For a solver whose status is already \<open>Unsat\<close>, \<^verbatim>\<open>Solve\<close> returns \<open>Unsat\<close> at once:
  it does not search, and the solver it leaves is the solver it was given.
\<close>

theorem Solve_Unsat_returns: "status s = Unsat \<Longrightarrow> Solve ops s = Some (Unsat, s)"
  by (simp add: Solve_def)

theorem Solve_Unsat_returns_witness:
  "status ((free_solver 2)\<lparr>status := Unsat\<rparr>) = Unsat \<and>
   Solve free_ops ((free_solver 2)\<lparr>status := Unsat\<rparr>) = Some (Unsat, (free_solver 2)\<lparr>status := Unsat\<rparr>)"
  using Solve_Unsat_returns [of "(free_solver 2)\<lparr>status := Unsat\<rparr>" free_ops]
  by simp

subsection \<open>Top-level simplification: proofs\<close>











subsection \<open>Models: proofs\<close>





subsection \<open>Backtracking: proofs\<close>

lemma unbind_step:
  assumes "lit_Var l < length (model s)" "lit_Var l < length (reason s)"
    and "unbind (s, ti) l = (s1, ti1)"
  shows "model s1 = (model s)[lit_Var l := 0]"
    and "reason s1 = (reason s)[lit_Var l := None]"
    and "clauses s1 = (case reason s ! lit_Var l of None \<Rightarrow> clauses s
                        | Some c \<Rightarrow> (clauses s)(c := unlock (clauses s c)))"
    and "set (varQueue s1) = insert (lit_Var l) (set (varQueue s))"
    and "trail s1 = trail s" "wl s1 = wl s" "status s1 = status s" "nbVars s1 = nbVars s"
    and "lastModel s1 = lastModel s" "minLits s1 = minLits s" "minWeights s1 = minWeights s"
    and "asumptions s1 = asumptions s" "nextRef s1 = nextRef s" "Stats s1 = Stats s"
    and "lbdStats s1 = lbdStats s" "localNbRestarts s1 = localNbRestarts s"
  using assms
  by (auto simp: unbind_def Let_def queue_contains_def queue_insert_def
      list_update_same_conv eq_commute[of "reason s"] split: option.splits if_splits)

lemma card_reason_step:
  assumes "finite U" "v0 < length rs"
  shows "card {v \<in> insert v0 U. rs ! v = Some c} =
         (if rs ! v0 = Some c then 1 else 0) + card {v \<in> U. rs[v0 := None] ! v = Some c}"
proof -
  have e: "{v \<in> U. rs[v0 := None] ! v = Some c} = {v \<in> U. v \<noteq> v0 \<and> rs ! v = Some c}"
    using assms(2) by (auto simp: nth_list_update)
  have f: "finite {v \<in> U. v \<noteq> v0 \<and> rs ! v = Some c}" using assms(1) by simp
  show ?thesis
  proof (cases "rs ! v0 = Some c")
    case True
    then have "{v \<in> insert v0 U. rs ! v = Some c} = insert v0 {v \<in> U. v \<noteq> v0 \<and> rs ! v = Some c}"
      by auto
    then show ?thesis using True f by (simp add: e)
  next
    case False
    then have "{v \<in> insert v0 U. rs ! v = Some c} = {v \<in> U. v \<noteq> v0 \<and> rs ! v = Some c}"
      by auto
    then show ?thesis using False by (simp add: e)
  qed
qed

lemma unbind_fold:
  assumes "\<forall>l\<in>set ls. lit_Var l < length (model s) \<and> lit_Var l < length (reason s)"
    and "foldl unbind (s, ti) ls = (s', ti')"
  shows "model s' = map (\<lambda>v. if v \<in> lit_Var ` set ls then 0 else model s ! v) [0..<length (model s)]
    \<and> reason s' = map (\<lambda>v. if v \<in> lit_Var ` set ls then None else reason s ! v) [0..<length (reason s)]
    \<and> (\<forall>c. clauses s' c = (clauses s c)\<lparr>lockCount := lockCount (clauses s c)
            - int (card {v \<in> lit_Var ` set ls. reason s ! v = Some c})\<rparr>)
    \<and> set (varQueue s') = set (varQueue s) \<union> lit_Var ` set ls
    \<and> trail s' = trail s \<and> wl s' = wl s \<and> status s' = status s \<and> nbVars s' = nbVars s
    \<and> lastModel s' = lastModel s \<and> minLits s' = minLits s \<and> minWeights s' = minWeights s
    \<and> asumptions s' = asumptions s \<and> nextRef s' = nextRef s \<and> Stats s' = Stats s
    \<and> lbdStats s' = lbdStats s \<and> localNbRestarts s' = localNbRestarts s"
  using assms
proof (induction ls arbitrary: s ti)
  case Nil
  then show ?case by (simp add: map_nth)
next
  case (Cons l ls)
  obtain s1 ti1 where u: "unbind (s, ti) l = (s1, ti1)" by (cases "unbind (s, ti) l")
  have r: "lit_Var l < length (model s)" "lit_Var l < length (reason s)"
    using Cons.prems(1) by simp_all
  note st = unbind_step[OF r u]
  have rng: "\<forall>l\<in>set ls. lit_Var l < length (model s1) \<and> lit_Var l < length (reason s1)"
    using Cons.prems(1) by (simp add: st)
  have run: "foldl unbind (s1, ti1) ls = (s', ti')" using Cons.prems(2) u by simp
  note IH = Cons.IH[OF rng run]
  have m: "model s' = map (\<lambda>v. if v \<in> lit_Var ` set (l # ls) then 0 else model s ! v) [0..<length (model s)]"
    using IH r by (auto simp: st nth_list_update)
  have rs: "reason s' = map (\<lambda>v. if v \<in> lit_Var ` set (l # ls) then None else reason s ! v) [0..<length (reason s)]"
    using IH r by (auto simp: st nth_list_update)
  have q: "set (varQueue s') = set (varQueue s) \<union> lit_Var ` set (l # ls)"
    using IH by (auto simp: st)
  have cl: "clauses s' c = (clauses s c)\<lparr>lockCount := lockCount (clauses s c)
            - int (card {v \<in> lit_Var ` set (l # ls). reason s ! v = Some c})\<rparr>" for c
  proof -
    have a: "clauses s' c = (clauses s1 c)\<lparr>lockCount := lockCount (clauses s1 c)
            - int (card {v \<in> lit_Var ` set ls. (reason s)[lit_Var l := None] ! v = Some c})\<rparr>"
      using IH by (simp add: st)
    have b: "card {v \<in> lit_Var ` set (l # ls). reason s ! v = Some c} =
         (if reason s ! lit_Var l = Some c then 1 else 0)
         + card {v \<in> lit_Var ` set ls. (reason s)[lit_Var l := None] ! v = Some c}"
      using card_reason_step[of "lit_Var ` set ls" "lit_Var l" "reason s" c] r by simp
    show ?thesis unfolding b
      by (cases "reason s ! lit_Var l") (auto simp: a st unlock_def)
  qed
  show ?case using IH m rs q cl by (simp add: st)
qed

lemma unbind_frame:
  "trail (fst (unbind st l)) = trail (fst st) \<and> wl (fst (unbind st l)) = wl (fst st) \<and>
   status (fst (unbind st l)) = status (fst st) \<and> nbVars (fst (unbind st l)) = nbVars (fst st) \<and>
   lastModel (fst (unbind st l)) = lastModel (fst st) \<and> minLits (fst (unbind st l)) = minLits (fst st) \<and>
   minWeights (fst (unbind st l)) = minWeights (fst st) \<and>
   asumptions (fst (unbind st l)) = asumptions (fst st) \<and> nextRef (fst (unbind st l)) = nextRef (fst st) \<and>
   length (model (fst (unbind st l))) = length (model (fst st))"
  by (simp add: unbind_def Let_def split: option.splits)


lemma unbind_fold_frame:
  "trail (fst (foldl unbind st ls)) = trail (fst st) \<and> wl (fst (foldl unbind st ls)) = wl (fst st) \<and>
   status (fst (foldl unbind st ls)) = status (fst st) \<and> nbVars (fst (foldl unbind st ls)) = nbVars (fst st) \<and>
   lastModel (fst (foldl unbind st ls)) = lastModel (fst st) \<and> minLits (fst (foldl unbind st ls)) = minLits (fst st) \<and>
   minWeights (fst (foldl unbind st ls)) = minWeights (fst st) \<and>
   asumptions (fst (foldl unbind st ls)) = asumptions (fst st) \<and> nextRef (fst (foldl unbind st ls)) = nextRef (fst st) \<and>
   length (model (fst (foldl unbind st ls))) = length (model (fst st))"
proof (induction ls arbitrary: st)
  case Nil
  then show ?case by simp
next
  case (Cons l ls)
  show ?case by (simp add: Cons unbind_frame)
qed

lemma cleanup_scan_eq:
  assumes "trail s = pre @ rest" "i = length pre"
  shows "cleanup_scan s lvl i rest =
     (let r = foldl unbind (s, []) (dropWhile (\<lambda>l. abs_lvl (model s ! lit_Var l) \<le> lvl) rest)
      in ((fst r)\<lparr>trail := pre @ takeWhile (\<lambda>l. abs_lvl (model s ! lit_Var l) \<le> lvl) rest\<rparr>, snd r))"
  using assms
proof (induction rest arbitrary: pre i)
  case Nil
  then show ?case by simp
next
  case (Cons lit rest)
  show ?case
  proof (cases "abs_lvl (model s ! lit_Var lit) > lvl")
    case True
    have "take i (trail (fst (foldl unbind (s, []) (lit # rest)))) = pre"
      using unbind_fold_frame[of "(s, [])" "lit # rest"] Cons.prems by simp
    then show ?thesis using True by (simp add: Let_def case_prod_beta)
  next
    case False
    have "cleanup_scan s lvl (Suc i) rest =
     (let r = foldl unbind (s, []) (dropWhile (\<lambda>l. abs_lvl (model s ! lit_Var l) \<le> lvl) rest)
      in ((fst r)\<lparr>trail := (pre @ [lit]) @ takeWhile (\<lambda>l. abs_lvl (model s ! lit_Var l) \<le> lvl) rest\<rparr>, snd r))"
      using Cons.prems by (intro Cons.IH) simp_all
    then show ?thesis using False by simp
  qed
qed


lemma cleanupBindings_eq:
  "cleanupBindings s lvl =
     (let r = foldl unbind (s, []) (dropWhile (\<lambda>l. abs_lvl (model s ! lit_Var l) \<le> lvl) (trail s))
      in resetOptimPolarity
           ((fst r)\<lparr>trail := takeWhile (\<lambda>l. abs_lvl (model s ! lit_Var l) \<le> lvl) (trail s),
                     varQueue := foldl queue_insert (varQueue (fst r)) (rev (snd r))\<rparr>))"
proof -
  have sc: "cleanup_scan s lvl 0 (trail s) =
     (let r = foldl unbind (s, []) (dropWhile (\<lambda>l. abs_lvl (model s ! lit_Var l) \<le> lvl) (trail s))
      in ((fst r)\<lparr>trail := [] @ takeWhile (\<lambda>l. abs_lvl (model s ! lit_Var l) \<le> lvl) (trail s)\<rparr>, snd r))"
    by (rule cleanup_scan_eq) simp_all
  show ?thesis
    unfolding cleanupBindings_def sc by (simp add: Let_def)
qed

lemma resetOptimPolarity_frame:
  "wl (resetOptimPolarity s) = wl s \<and> status (resetOptimPolarity s) = status s \<and>
   nbVars (resetOptimPolarity s) = nbVars s \<and> lastModel (resetOptimPolarity s) = lastModel s \<and>
   minLits (resetOptimPolarity s) = minLits s \<and> minWeights (resetOptimPolarity s) = minWeights s \<and>
   asumptions (resetOptimPolarity s) = asumptions s \<and> nextRef (resetOptimPolarity s) = nextRef s \<and>
   model (resetOptimPolarity s) = model s \<and> trail (resetOptimPolarity s) = trail s \<and>
   reason (resetOptimPolarity s) = reason s \<and> clauses (resetOptimPolarity s) = clauses s \<and>
   varQueue (resetOptimPolarity s) = varQueue s \<and> Stats (resetOptimPolarity s) = Stats s \<and>
   lbdStats (resetOptimPolarity s) = lbdStats s \<and>
   localNbRestarts (resetOptimPolarity s) = localNbRestarts s"
  by (simp add: resetOptimPolarity_def split: option.splits)

lemma cleanupBindings_frame:
  "wl (cleanupBindings s lvl) = wl s \<and> status (cleanupBindings s lvl) = status s \<and>
   nbVars (cleanupBindings s lvl) = nbVars s \<and> lastModel (cleanupBindings s lvl) = lastModel s \<and>
   minLits (cleanupBindings s lvl) = minLits s \<and> minWeights (cleanupBindings s lvl) = minWeights s \<and>
   asumptions (cleanupBindings s lvl) = asumptions s \<and> nextRef (cleanupBindings s lvl) = nextRef s \<and>
   length (model (cleanupBindings s lvl)) = length (model s)"
  unfolding cleanupBindings_eq Let_def
  by (simp add: resetOptimPolarity_frame unbind_fold_frame)

lemma sorted_takeWhile_filter:
  "sorted (map f xs) \<Longrightarrow> takeWhile (\<lambda>x. f x \<le> (L::int)) xs = filter (\<lambda>x. f x \<le> L) xs"
proof (induction xs)
  case Nil
  then show ?case by simp
next
  case (Cons x xs)
  show ?case
  proof (cases "f x \<le> L")
    case True
    then show ?thesis using Cons by simp
  next
    case False
    then have "\<forall>y\<in>set xs. \<not> f y \<le> L" using Cons.prems by auto
    then have "filter (\<lambda>x. f x \<le> L) xs = []" by (simp add: filter_empty_conv)
    then show ?thesis using False by simp
  qed
qed

lemma sorted_dropWhile_above:
  "sorted (map f xs) \<Longrightarrow> \<forall>x\<in>set (dropWhile (\<lambda>x. f x \<le> (L::int)) xs). L < f x"
proof (induction xs)
  case Nil
  show ?case by simp
next
  case (Cons x xs)
  show ?case
  proof (cases "f x \<le> L")
    case True
    have "sorted (map f xs)" using Cons.prems by simp
    then have "\<forall>x\<in>set (dropWhile (\<lambda>x. f x \<le> L) xs). L < f x" by (rule Cons.IH)
    then show ?thesis using True by simp
  next
    case False
    have "\<forall>y\<in>set xs. f x \<le> f y" using Cons.prems by simp
    then have "\<forall>y\<in>set xs. L < f y" using False by fastforce
    then show ?thesis using False by simp
  qed
qed

lemma set_foldl_queue_insert: "set (foldl queue_insert q xs) = set q \<union> set xs"
  by (induction xs arbitrary: q) (auto simp: queue_insert_def)

lemma cleanupBindings_props:
  assumes rng: "\<forall>l\<in>set (trail s). lit_Var l < length (model s)"
    and len: "length (reason s) = length (model s)"
    and cov: "\<forall>v<length (model s). model s ! v \<noteq> 0 \<longrightarrow> v \<in> lit_Var ` set (trail s)"
    and srt: "sorted (map (\<lambda>l. abs_lvl (model s ! lit_Var l)) (trail s))"
    and lvl: "0 \<le> L"
  shows "trail (cleanupBindings s L) = filter (\<lambda>l. abs_lvl (model s ! lit_Var l) \<le> L) (trail s)"
    and "model (cleanupBindings s L) =
           map (\<lambda>v. if L < abs_lvl (model s ! v) then 0 else model s ! v) [0..<length (model s)]"
    and "reason (cleanupBindings s L) =
           map (\<lambda>v. if L < abs_lvl (model s ! v) then None else reason s ! v) [0..<length (model s)]"
    and "clauses (cleanupBindings s L) c =
           (clauses s c)\<lparr>lockCount := lockCount (clauses s c)
              - int (card {v. v < length (model s) \<and> L < abs_lvl (model s ! v) \<and> reason s ! v = Some c})\<rparr>"
    and "{v. v < length (model s) \<and> L < abs_lvl (model s ! v)} \<subseteq> set (varQueue (cleanupBindings s L))"
proof -
  define f where "f = (\<lambda>l. abs_lvl (model s ! lit_Var l))"
  define suf where "suf = dropWhile (\<lambda>l. f l \<le> L) (trail s)"
  define keep where "keep = takeWhile (\<lambda>l. f l \<le> L) (trail s)"
  define U where "U = {v. v < length (model s) \<and> L < abs_lvl (model s ! v)}"
  obtain s' ti where r: "foldl unbind (s, []) suf = (s', ti)"
    by (cases "foldl unbind (s, []) suf")
  have tr: "trail s = keep @ suf" by (simp add: keep_def suf_def)
  have srt': "sorted (map f (trail s))" using srt by (simp add: f_def)
  have above: "\<forall>l\<in>set suf. L < f l"
    unfolding suf_def using sorted_dropWhile_above[OF srt'] .
  have kf: "keep = filter (\<lambda>l. f l \<le> L) (trail s)"
    unfolding keep_def using sorted_takeWhile_filter[OF srt'] .
  have below: "\<forall>l\<in>set keep. f l \<le> L" by (simp add: kf)
  have sufr: "\<forall>l\<in>set suf. lit_Var l < length (model s) \<and> lit_Var l < length (reason s)"
    using rng len tr by simp
  have img: "lit_Var ` set suf = U"
  proof (rule set_eqI)
    fix v
    show "v \<in> lit_Var ` set suf \<longleftrightarrow> v \<in> U"
    proof
      assume "v \<in> lit_Var ` set suf"
      then obtain l where l: "l \<in> set suf" "v = lit_Var l" by auto
      then have "v < length (model s)" "L < f l" using sufr above by auto
      then show "v \<in> U" using l by (simp add: U_def f_def)
    next
      assume v: "v \<in> U"
      then have a: "v < length (model s)" "L < abs_lvl (model s ! v)" by (simp_all add: U_def)
      then have "model s ! v \<noteq> 0" using lvl by (auto simp: abs_lvl_def)
      then obtain l where l: "l \<in> set (trail s)" "v = lit_Var l" using cov a by auto
      have "l \<notin> set keep"
      proof
        assume "l \<in> set keep"
        then have "f l \<le> L" using below by simp
        then show False using a l by (simp add: f_def)
      qed
      then have "l \<in> set suf" using l tr by simp
      then show "v \<in> lit_Var ` set suf" using l by simp
    qed
  qed
  note uf = unbind_fold[OF sufr r]
  have cb: "cleanupBindings s L =
      resetOptimPolarity (s'\<lparr>trail := keep, varQueue := foldl queue_insert (varQueue s') (rev ti)\<rparr>)"
    unfolding cleanupBindings_eq Let_def using r by (simp add: suf_def keep_def f_def)
  show "trail (cleanupBindings s L) = filter (\<lambda>l. abs_lvl (model s ! lit_Var l) \<le> L) (trail s)"
    using kf by (simp add: cb resetOptimPolarity_frame f_def)
  have inU: "\<And>v. v < length (model s) \<Longrightarrow> v \<in> U \<longleftrightarrow> L < abs_lvl (model s ! v)"
    by (simp add: U_def)
  show "model (cleanupBindings s L) =
           map (\<lambda>v. if L < abs_lvl (model s ! v) then 0 else model s ! v) [0..<length (model s)]"
    using uf by (simp add: cb resetOptimPolarity_frame img inU)
  show "reason (cleanupBindings s L) =
           map (\<lambda>v. if L < abs_lvl (model s ! v) then None else reason s ! v) [0..<length (model s)]"
    using uf by (simp add: cb resetOptimPolarity_frame img len inU)
  have "{v \<in> U. reason s ! v = Some c} =
        {v. v < length (model s) \<and> L < abs_lvl (model s ! v) \<and> reason s ! v = Some c}"
    by (auto simp: U_def)
  then show "clauses (cleanupBindings s L) c =
           (clauses s c)\<lparr>lockCount := lockCount (clauses s c)
              - int (card {v. v < length (model s) \<and> L < abs_lvl (model s ! v) \<and> reason s ! v = Some c})\<rparr>"
    using uf by (simp add: cb resetOptimPolarity_frame img)
  have "U \<subseteq> set (varQueue s')" using uf by (simp add: img)
  then show "{v. v < length (model s) \<and> L < abs_lvl (model s ! v)} \<subseteq> set (varQueue (cleanupBindings s L))"
    by (auto simp: cb resetOptimPolarity_frame set_foldl_queue_insert U_def)
qed

lemma propagateAndSearch_restart:
  "lit \<noteq> - 1 \<Longrightarrow> unifyLiteral ops s0 lit lvl = (None, s1) \<Longrightarrow> mustRestart ops (lbdStats s1) \<Longrightarrow>
   propagateAndSearch ops s0 lit lvl =
     Some (Indet, cleanupBindings (s1\<lparr>lbdStats := lbd_clear ops (lbdStats s1)\<rparr>) 1)"
  by (subst propagateAndSearch.simps) simp

text \<open>
  C5. Let the trail hold every bound variable, with levels that do not decrease along it.
  After \<^verbatim>\<open>cleanupBindings\<close> to level \<open>L\<close>: every literal of the trail is bound at a level
  at most \<open>L\<close>; every variable that was bound above \<open>L\<close> is unbound, has no reason and
  is in the variable queue; each clause has lost one lock for each such variable it was
  the reason of; the bindings at levels up to \<open>L\<close> are unchanged and the trail keeps
  exactly their literals, in order. A restart is \<^verbatim>\<open>cleanupBindings\<close> to level 1, so the
  bindings of level 1 survive it.
\<close>

theorem cleanupBindings_coherent:
  assumes "\<forall>l\<in>set (trail s). lit_Var l < length (model s)"
    and "length (reason s) = length (model s)"
    and "\<forall>v<length (model s). model s ! v \<noteq> 0 \<longrightarrow> v \<in> lit_Var ` set (trail s)"
    and "sorted (map (\<lambda>l. abs_lvl (model s ! lit_Var l)) (trail s))"
    and "0 \<le> L"
  shows "(\<forall>l\<in>set (trail (cleanupBindings s L)).
            abs_lvl (model (cleanupBindings s L) ! lit_Var l) \<le> L) \<and>
         (\<forall>v<length (model s). L < abs_lvl (model s ! v) \<longrightarrow>
            model (cleanupBindings s L) ! v = 0 \<and> reason (cleanupBindings s L) ! v = None \<and>
            queue_contains (varQueue (cleanupBindings s L)) v) \<and>
         (\<forall>c. lockCount (clauses (cleanupBindings s L) c) =
            lockCount (clauses s c)
            - int (card {v. v < length (model s) \<and> L < abs_lvl (model s ! v) \<and> reason s ! v = Some c})) \<and>
         (\<forall>v<length (model s). abs_lvl (model s ! v) \<le> L \<longrightarrow>
            model (cleanupBindings s L) ! v = model s ! v \<and>
            reason (cleanupBindings s L) ! v = reason s ! v) \<and>
         trail (cleanupBindings s L) = filter (\<lambda>l. abs_lvl (model s ! lit_Var l) \<le> L) (trail s) \<and>
         (\<forall>ops s0 lit lvl. lit \<noteq> - 1 \<and> unifyLiteral ops s0 lit lvl = (None, s) \<and> mustRestart ops (lbdStats s) \<longrightarrow>
            propagateAndSearch ops s0 lit lvl =
              Some (Indet, cleanupBindings (s\<lparr>lbdStats := lbd_clear ops (lbdStats s)\<rparr>) 1))"
proof -
  note p = cleanupBindings_props[OF assms]
  have a: "\<forall>l\<in>set (trail (cleanupBindings s L)). abs_lvl (model (cleanupBindings s L) ! lit_Var l) \<le> L"
    using assms(1) by (simp add: p(1,2))
  have b: "\<forall>v<length (model s). L < abs_lvl (model s ! v) \<longrightarrow>
            model (cleanupBindings s L) ! v = 0 \<and> reason (cleanupBindings s L) ! v = None \<and>
            queue_contains (varQueue (cleanupBindings s L)) v"
    using p(5) by (auto simp: p(2,3) queue_contains_def)
  have c: "\<forall>c. lockCount (clauses (cleanupBindings s L) c) =
            lockCount (clauses s c)
            - int (card {v. v < length (model s) \<and> L < abs_lvl (model s ! v) \<and> reason s ! v = Some c})"
    by (simp add: p(4))
  have d: "\<forall>v<length (model s). abs_lvl (model s ! v) \<le> L \<longrightarrow>
            model (cleanupBindings s L) ! v = model s ! v \<and>
            reason (cleanupBindings s L) ! v = reason s ! v"
    by (simp add: p(2,3))
  have e: "\<forall>ops s0 lit lvl. lit \<noteq> - 1 \<and> unifyLiteral ops s0 lit lvl = (None, s) \<and> mustRestart ops (lbdStats s) \<longrightarrow>
            propagateAndSearch ops s0 lit lvl =
              Some (Indet, cleanupBindings (s\<lparr>lbdStats := lbd_clear ops (lbdStats s)\<rparr>) 1)"
    using propagateAndSearch_restart by blast
  show ?thesis using a b c d e p(1) by blast
qed

lemma two_level_example_fields:
  "trail two_level_example = [0, 2, 5]" "model two_level_example = [1, 2, - 2]"
  "reason two_level_example = [None, None, Some 0]"
  by (simp_all add: two_level_example_def free_solver_def)

theorem cleanupBindings_coherent_witness:
  "trail (cleanupBindings two_level_example 1) = [0] \<and>
   model (cleanupBindings two_level_example 1) ! 0 = 1 \<and>
   model (cleanupBindings two_level_example 1) ! 1 = 0 \<and>
   model (cleanupBindings two_level_example 1) ! 2 = 0 \<and>
   reason (cleanupBindings two_level_example 1) ! 2 = None \<and>
   queue_contains (varQueue (cleanupBindings two_level_example 1)) 1 \<and>
   queue_contains (varQueue (cleanupBindings two_level_example 1)) 2"
proof -
  have h1: "\<forall>l\<in>set (trail two_level_example). lit_Var l < length (model two_level_example)"
    by (simp add: two_level_example_fields lit_defs)
  have h2: "length (reason two_level_example) = length (model two_level_example)"
    by (simp add: two_level_example_fields)
  have h3: "\<forall>v<length (model two_level_example). model two_level_example ! v \<noteq> 0
              \<longrightarrow> v \<in> lit_Var ` set (trail two_level_example)"
    by (simp add: two_level_example_fields lit_defs less_Suc_eq numeral_3_eq_3)
  have h4: "sorted (map (\<lambda>l. abs_lvl (model two_level_example ! lit_Var l)) (trail two_level_example))"
    by (simp add: two_level_example_fields lit_defs)
  have h5: "(0::int) \<le> 1" by simp
  note t = cleanupBindings_coherent [OF h1 h2 h3 h4 h5]
  have l: "(0::nat) < length (model two_level_example)" "1 < length (model two_level_example)"
    "2 < length (model two_level_example)"
    by (simp_all add: two_level_example_fields)
  have a: "abs_lvl (model two_level_example ! 0) \<le> 1" "1 < abs_lvl (model two_level_example ! 1)"
    "1 < abs_lvl (model two_level_example ! 2)"
    by (simp_all add: two_level_example_fields lit_defs)
  have tr: "trail (cleanupBindings two_level_example 1) = [0]"
    using t by (simp add: two_level_example_fields lit_defs)
  have m0: "model (cleanupBindings two_level_example 1) ! 0 = 1"
    using t l(1) a(1) by (simp add: two_level_example_fields)
  have m1: "model (cleanupBindings two_level_example 1) ! 1 = 0 \<and>
    queue_contains (varQueue (cleanupBindings two_level_example 1)) 1"
    using t l(2) a(2) by blast
  have m2: "model (cleanupBindings two_level_example 1) ! 2 = 0 \<and>
    reason (cleanupBindings two_level_example 1) ! 2 = None \<and>
    queue_contains (varQueue (cleanupBindings two_level_example 1)) 2"
    using t l(3) a(3) by blast
  show ?thesis using tr m0 m1 m2 by simp
qed

subsection \<open>Appending a clause: proofs\<close>

lemma AppendClause_loop_PB:
  assumes "lits cl = pre @ rest" "litWeights cl = Some (wpre @ wrest)"
    "length wpre = length pre" "length wrest = length rest"
  shows "AppendClause_loop s cl (length pre) minW maxW =
     (cl\<lparr>lits := pre @ filter (\<lambda>l. litStatus s l = Indet) rest,
         litWeights := Some (wpre @ map snd (filter (\<lambda>p. litStatus s (fst p) = Indet) (zip rest wrest))),
         cardinality := cardinality cl
            - sum_list (map snd (filter (\<lambda>p. litStatus s (fst p) = Sat) (zip rest wrest)))\<rparr>,
      minW + sum_list (map snd (filter (\<lambda>p. litStatus s (fst p) = Sat) (zip rest wrest))),
      maxW + sum_list (map snd (filter (\<lambda>p. litStatus s (fst p) = Sat) (zip rest wrest)))
           + sum_list (map snd (filter (\<lambda>p. litStatus s (fst p) = Indet) (zip rest wrest))))"
  using assms
proof (induction rest arbitrary: cl pre wpre wrest minW maxW)
  case Nil
  then show ?case by (subst AppendClause_loop.simps) (simp add: Len_def)
next
  case (Cons l rest)
  obtain w wrest' where wr: "wrest = w # wrest'" using Cons.prems(4) by (cases wrest) auto
  have len: "length pre < Len cl" using Cons.prems(1) by (simp add: Len_def)
  have g: "Get cl (length pre) = l" using Cons.prems(1) by (simp add: Get_def)
  have wt: "Weight cl (length pre) = w"
    using Cons.prems(2,3) wr by (simp add: Weight_def nth_append)
  have rm: "removeLit cl (length pre) = cl\<lparr>lits := pre @ rest, litWeights := Some (wpre @ wrest')\<rparr>"
    using Cons.prems(1,2,3) wr by (simp add: removeLit_def remove_nth_def)
  show ?case
  proof (cases "litStatus s l")
    case Indet
    have step: "AppendClause_loop s cl (length pre) minW maxW =
        AppendClause_loop s cl (length (pre @ [l])) minW (maxW + w)"
      using len g wt Indet by (subst AppendClause_loop.simps) simp
    have "AppendClause_loop s cl (length (pre @ [l])) minW (maxW + w) =
     (cl\<lparr>lits := (pre @ [l]) @ filter (\<lambda>l. litStatus s l = Indet) rest,
         litWeights := Some ((wpre @ [w]) @ map snd (filter (\<lambda>p. litStatus s (fst p) = Indet) (zip rest wrest'))),
         cardinality := cardinality cl
            - sum_list (map snd (filter (\<lambda>p. litStatus s (fst p) = Sat) (zip rest wrest')))\<rparr>,
      minW + sum_list (map snd (filter (\<lambda>p. litStatus s (fst p) = Sat) (zip rest wrest'))),
      (maxW + w) + sum_list (map snd (filter (\<lambda>p. litStatus s (fst p) = Sat) (zip rest wrest')))
           + sum_list (map snd (filter (\<lambda>p. litStatus s (fst p) = Indet) (zip rest wrest'))))"
      using Cons.prems wr by (intro Cons.IH) simp_all
    then show ?thesis using step Indet wr by simp
  next
    case Sat
    define cl1 where "cl1 = updateCardinality (removeLit cl (length pre)) (- w)"
    have cl1: "cl1 = cl\<lparr>lits := pre @ rest, litWeights := Some (wpre @ wrest'),
                        cardinality := cardinality cl - w\<rparr>"
      by (simp add: cl1_def rm updateCardinality_def)
    have step: "AppendClause_loop s cl (length pre) minW maxW =
        AppendClause_loop s cl1 (length pre) (minW + w) (maxW + w)"
      using len g wt Sat by (subst AppendClause_loop.simps) (simp add: cl1_def Let_def)
    have "AppendClause_loop s cl1 (length pre) (minW + w) (maxW + w) =
     (cl1\<lparr>lits := pre @ filter (\<lambda>l. litStatus s l = Indet) rest,
         litWeights := Some (wpre @ map snd (filter (\<lambda>p. litStatus s (fst p) = Indet) (zip rest wrest'))),
         cardinality := cardinality cl1
            - sum_list (map snd (filter (\<lambda>p. litStatus s (fst p) = Sat) (zip rest wrest')))\<rparr>,
      (minW + w) + sum_list (map snd (filter (\<lambda>p. litStatus s (fst p) = Sat) (zip rest wrest'))),
      (maxW + w) + sum_list (map snd (filter (\<lambda>p. litStatus s (fst p) = Sat) (zip rest wrest')))
           + sum_list (map snd (filter (\<lambda>p. litStatus s (fst p) = Indet) (zip rest wrest'))))"
      using Cons.prems wr by (intro Cons.IH) (simp_all add: cl1)
    then show ?thesis using step Sat wr by (simp add: cl1)
  next
    case Unsat
    define cl1 where "cl1 = removeLit cl (length pre)"
    have cl1: "cl1 = cl\<lparr>lits := pre @ rest, litWeights := Some (wpre @ wrest')\<rparr>"
      by (simp add: cl1_def rm)
    have step: "AppendClause_loop s cl (length pre) minW maxW =
        AppendClause_loop s cl1 (length pre) minW maxW"
      using len g Unsat by (subst AppendClause_loop.simps) (simp add: cl1_def)
    have "AppendClause_loop s cl1 (length pre) minW maxW =
     (cl1\<lparr>lits := pre @ filter (\<lambda>l. litStatus s l = Indet) rest,
         litWeights := Some (wpre @ map snd (filter (\<lambda>p. litStatus s (fst p) = Indet) (zip rest wrest'))),
         cardinality := cardinality cl1
            - sum_list (map snd (filter (\<lambda>p. litStatus s (fst p) = Sat) (zip rest wrest')))\<rparr>,
      minW + sum_list (map snd (filter (\<lambda>p. litStatus s (fst p) = Sat) (zip rest wrest'))),
      maxW + sum_list (map snd (filter (\<lambda>p. litStatus s (fst p) = Sat) (zip rest wrest')))
           + sum_list (map snd (filter (\<lambda>p. litStatus s (fst p) = Indet) (zip rest wrest'))))"
      using Cons.prems wr by (intro Cons.IH) (simp_all add: cl1)
    then show ?thesis using step Unsat wr by (simp add: cl1)
  qed
qed

lemma AppendClause_loop_plain:
  assumes "lits cl = pre @ rest" "litWeights cl = None"
  shows "AppendClause_loop s cl (length pre) minW maxW =
     (cl\<lparr>lits := pre @ filter (\<lambda>l. litStatus s l = Indet) rest,
         cardinality := cardinality cl
            - sum_list (map snd (filter (\<lambda>p. litStatus s (fst p) = Sat) (zip rest (replicate (length rest) 1))))\<rparr>,
      minW + sum_list (map snd (filter (\<lambda>p. litStatus s (fst p) = Sat) (zip rest (replicate (length rest) 1)))),
      maxW + sum_list (map snd (filter (\<lambda>p. litStatus s (fst p) = Sat) (zip rest (replicate (length rest) 1))))
           + sum_list (map snd (filter (\<lambda>p. litStatus s (fst p) = Indet) (zip rest (replicate (length rest) 1)))))"
  using assms
proof (induction rest arbitrary: cl pre minW maxW)
  case Nil
  then show ?case by (subst AppendClause_loop.simps) (simp add: Len_def)
next
  case (Cons l rest)
  define w where "w = (1::int)"
  note wr = w_def
  have len: "length pre < Len cl" using Cons.prems(1) by (simp add: Len_def)
  have g: "Get cl (length pre) = l" using Cons.prems(1) by (simp add: Get_def)
  have wt: "Weight cl (length pre) = w"
    using Cons.prems(2) wr by (simp add: Weight_def)
  have rm: "removeLit cl (length pre) = cl\<lparr>lits := pre @ rest\<rparr>"
    using Cons.prems(1,2) by (simp add: removeLit_def remove_nth_def)
  show ?case
  proof (cases "litStatus s l")
    case Indet
    have step: "AppendClause_loop s cl (length pre) minW maxW =
        AppendClause_loop s cl (length (pre @ [l])) minW (maxW + w)"
      using len g wt Indet by (subst AppendClause_loop.simps) simp
    have "AppendClause_loop s cl (length (pre @ [l])) minW (maxW + w) =
     (cl\<lparr>lits := (pre @ [l]) @ filter (\<lambda>l. litStatus s l = Indet) rest,
         cardinality := cardinality cl
            - sum_list (map snd (filter (\<lambda>p. litStatus s (fst p) = Sat) (zip rest (replicate (length rest) 1))))\<rparr>,
      minW + sum_list (map snd (filter (\<lambda>p. litStatus s (fst p) = Sat) (zip rest (replicate (length rest) 1)))),
      (maxW + w) + sum_list (map snd (filter (\<lambda>p. litStatus s (fst p) = Sat) (zip rest (replicate (length rest) 1))))
           + sum_list (map snd (filter (\<lambda>p. litStatus s (fst p) = Indet) (zip rest (replicate (length rest) 1)))))"
      using Cons.prems wr by (intro Cons.IH) simp_all
    then show ?thesis using step Indet wr by simp
  next
    case Sat
    define cl1 where "cl1 = updateCardinality (removeLit cl (length pre)) (- w)"
    have cl1: "cl1 = cl\<lparr>lits := pre @ rest, cardinality := cardinality cl - w\<rparr>"
      by (simp add: cl1_def rm updateCardinality_def)
    have step: "AppendClause_loop s cl (length pre) minW maxW =
        AppendClause_loop s cl1 (length pre) (minW + w) (maxW + w)"
      using len g wt Sat by (subst AppendClause_loop.simps) (simp add: cl1_def Let_def)
    have "AppendClause_loop s cl1 (length pre) (minW + w) (maxW + w) =
     (cl1\<lparr>lits := pre @ filter (\<lambda>l. litStatus s l = Indet) rest,
         cardinality := cardinality cl1
            - sum_list (map snd (filter (\<lambda>p. litStatus s (fst p) = Sat) (zip rest (replicate (length rest) 1))))\<rparr>,
      (minW + w) + sum_list (map snd (filter (\<lambda>p. litStatus s (fst p) = Sat) (zip rest (replicate (length rest) 1)))),
      (maxW + w) + sum_list (map snd (filter (\<lambda>p. litStatus s (fst p) = Sat) (zip rest (replicate (length rest) 1))))
           + sum_list (map snd (filter (\<lambda>p. litStatus s (fst p) = Indet) (zip rest (replicate (length rest) 1)))))"
      using Cons.prems wr by (intro Cons.IH) (simp_all add: cl1)
    then show ?thesis using step Sat wr by (simp add: cl1)
  next
    case Unsat
    define cl1 where "cl1 = removeLit cl (length pre)"
    have cl1: "cl1 = cl\<lparr>lits := pre @ rest\<rparr>"
      by (simp add: cl1_def rm)
    have step: "AppendClause_loop s cl (length pre) minW maxW =
        AppendClause_loop s cl1 (length pre) minW maxW"
      using len g Unsat by (subst AppendClause_loop.simps) (simp add: cl1_def)
    have "AppendClause_loop s cl1 (length pre) minW maxW =
     (cl1\<lparr>lits := pre @ filter (\<lambda>l. litStatus s l = Indet) rest,
         cardinality := cardinality cl1
            - sum_list (map snd (filter (\<lambda>p. litStatus s (fst p) = Sat) (zip rest (replicate (length rest) 1))))\<rparr>,
      minW + sum_list (map snd (filter (\<lambda>p. litStatus s (fst p) = Sat) (zip rest (replicate (length rest) 1)))),
      maxW + sum_list (map snd (filter (\<lambda>p. litStatus s (fst p) = Sat) (zip rest (replicate (length rest) 1))))
           + sum_list (map snd (filter (\<lambda>p. litStatus s (fst p) = Indet) (zip rest (replicate (length rest) 1)))))"
      using Cons.prems wr by (intro Cons.IH) (simp_all add: cl1)
    then show ?thesis using step Unsat wr by (simp add: cl1)
  qed
qed

lemma AppendClause_loop_reduced:
  assumes "case litWeights c of None \<Rightarrow> True | Some ws \<Rightarrow> length ws = length (lits c)"
  shows "AppendClause_loop s c 0 0 0 =
           (reducedClause s c, satisfiedWeight s c, satisfiedWeight s c + freeWeight s c)"
proof (cases "litWeights c")
  case None
  have "AppendClause_loop s c (length ([]::Lit list)) 0 0 =
     (c\<lparr>lits := [] @ filter (\<lambda>l. litStatus s l = Indet) (lits c),
         cardinality := cardinality c
            - sum_list (map snd (filter (\<lambda>p. litStatus s (fst p) = Sat) (zip (lits c) (replicate (length (lits c)) 1))))\<rparr>,
      0 + sum_list (map snd (filter (\<lambda>p. litStatus s (fst p) = Sat) (zip (lits c) (replicate (length (lits c)) 1)))),
      0 + sum_list (map snd (filter (\<lambda>p. litStatus s (fst p) = Sat) (zip (lits c) (replicate (length (lits c)) 1))))
           + sum_list (map snd (filter (\<lambda>p. litStatus s (fst p) = Indet) (zip (lits c) (replicate (length (lits c)) 1)))))"
    by (rule AppendClause_loop_plain) (simp_all add: None)
  moreover have "c\<lparr>litWeights := None\<rparr> = c" using None by simp
  ultimately show ?thesis
    by (simp add: reducedClause_def satisfiedWeight_def freeWeight_def clauseTerms_def None)
next
  case (Some ws)
  have l: "length ws = length (lits c)" using assms Some by simp
  have "AppendClause_loop s c (length ([]::Lit list)) 0 0 =
     (c\<lparr>lits := [] @ filter (\<lambda>l. litStatus s l = Indet) (lits c),
         litWeights := Some ([] @ map snd (filter (\<lambda>p. litStatus s (fst p) = Indet) (zip (lits c) ws))),
         cardinality := cardinality c
            - sum_list (map snd (filter (\<lambda>p. litStatus s (fst p) = Sat) (zip (lits c) ws)))\<rparr>,
      0 + sum_list (map snd (filter (\<lambda>p. litStatus s (fst p) = Sat) (zip (lits c) ws))),
      0 + sum_list (map snd (filter (\<lambda>p. litStatus s (fst p) = Sat) (zip (lits c) ws)))
           + sum_list (map snd (filter (\<lambda>p. litStatus s (fst p) = Indet) (zip (lits c) ws))))"
    by (rule AppendClause_loop_PB) (simp_all add: Some l)
  then show ?thesis
    by (simp add: reducedClause_def satisfiedWeight_def freeWeight_def clauseTerms_def Some)
qed

lemma AppendClause_eq:
  assumes "case litWeights (clauses (cleanupBindings s 1) c) of None \<Rightarrow> True
           | Some ws \<Rightarrow> length ws = length (lits (clauses (cleanupBindings s 1) c))"
  shows "AppendClause ops s c =
     (let s1 = cleanupBindings s 1;
          cl = clauses s1 c;
          cl' = reducedClause s1 cl;
          s2 = s1\<lparr>clauses := (clauses s1)(c := cl')\<rparr>
      in if cardinality cl' \<le> 0 then s2
         else if freeWeight s1 cl < cardinality cl' then s2\<lparr>status := Unsat\<rparr>
         else if freeWeight s1 cl = cardinality cl' then propagateUnits ops s2 (lits cl')
         else appendClause ops s2 c)"
  using AppendClause_loop_reduced[OF assms, of "cleanupBindings s 1"]
  by (simp add: AppendClause_def Let_def Cardinality_def reducedClause_def)










subsection \<open>Enumeration: proofs\<close>






lemma SignedLit_not_marker: "SignedLit v b \<noteq> - 1"
  by (simp add: SignedLit_def)






lemma free_ops_fields:
  "unifyLiteral free_ops = free_unify"
  "learnClause free_ops = (\<lambda>s c lvl. ((None, - 1), s))"
  "reduceLearned free_ops s = s" "bumpNbMax free_ops s = s"
  "mustRestart free_ops l = False" "lbd_clear free_ops l = l"
  "addConflict free_ops l n = l" "addLbd free_ops l k = l"
  "watchClause free_ops w c cl = w" "tryUnwatchClause free_ops w c cl = w"
  by (simp_all add: free_ops_def)







subsection \<open>Optimisation: proofs\<close>

lemma keepsObjective_refl: "keepsObjective s s"
  by (simp add: keepsObjective_def)

lemma keepsObjective_trans:
  "keepsObjective s s' \<Longrightarrow> keepsObjective s' s'' \<Longrightarrow> keepsObjective s s''"
  by (simp add: keepsObjective_def)

lemma keeps_cleanupBindings: "keepsObjective s (cleanupBindings s L)"
  using cleanupBindings_frame[of s L] by (simp add: keepsObjective_def)

lemma keeps_chooseLit: "keepsObjective s (snd (chooseLit s))"
  by (simp add: keepsObjective_def chooseLit_def split: prod.splits option.splits)

lemma keeps_rebuildOrderHeap: "keepsObjective s (rebuildOrderHeap s)"
  by (simp add: keepsObjective_def rebuildOrderHeap_def)

lemma keeps_reduceIfDue: "opsKeepObjective ops \<Longrightarrow> keepsObjective s (reduceIfDue ops s)"
  by (auto simp: keepsObjective_def opsKeepObjective_def reduceIfDue_def)

lemma keeps_unifyLiteral:
  "opsKeepObjective ops \<Longrightarrow> unifyLiteral ops s lit lvl = (r, s') \<Longrightarrow> keepsObjective s s'"
  by (metis opsKeepObjective_def snd_conv)

lemma keeps_learnClause:
  "opsKeepObjective ops \<Longrightarrow> learnClause ops s c lvl = (r, s') \<Longrightarrow> keepsObjective s s'"
  by (metis opsKeepObjective_def snd_conv)

lemma keeps_bindUnit:
  assumes "opsKeepObjective ops" "bindUnit ops s unit = (r, s')"
  shows "keepsObjective s s'"
proof -
  define s3 where "s3 = cleanupBindings ((incUnitLearned s)\<lparr>lbdStats := addLbd ops (lbdStats (incUnitLearned s)) 1\<rparr>) 1"
  define s4 where "s4 = s3\<lparr>model := (model s3)[lit_Var unit := lvlToSignedLvl unit 1]\<rparr>"
  have "keepsObjective s s3"
    using cleanupBindings_frame[of "(incUnitLearned s)\<lparr>lbdStats := addLbd ops (lbdStats (incUnitLearned s)) 1\<rparr>" 1]
    by (simp add: s3_def keepsObjective_def incUnitLearned_def)
  then have "keepsObjective s s4" by (simp add: s4_def keepsObjective_def)
  moreover have "unifyLiteral ops s4 unit 1 = (r, s')"
    using assms(2) by (simp add: bindUnit_def Let_def s4_def s3_def)
  ultimately show ?thesis using keeps_unifyLiteral[OF assms(1)] keepsObjective_trans by blast
qed

lemma keeps_backjump:
  assumes "backjump ops s learnt = (r, s')"
  shows "keepsObjective s s'"
proof -
  define s4 where "s4 = addLearned ops ((incLearned (if Len (clauses s learnt) = 2 then incBinaryLearned s else s))
      \<lparr>lbdStats := addLbd ops (lbdStats (incLearned (if Len (clauses s learnt) = 2 then incBinaryLearned s else s)))
          (lbdValue (clauses (incLearned (if Len (clauses s learnt) = 2 then incBinaryLearned s else s)) learnt))\<rparr>) learnt"
  have a: "keepsObjective s s4"
    by (simp add: s4_def keepsObjective_def addLearned_def incLearned_def incBinaryLearned_def)
  obtain lvl lit where bd: "backtrackData (clauses s4 learnt) (model s4) = (lvl, lit)"
    by (cases "backtrackData (clauses s4 learnt) (model s4)")
  define s5 where "s5 = cleanupBindings s4 lvl"
  have b: "keepsObjective s4 s5" unfolding s5_def by (rule keeps_cleanupBindings)
  have "s' = s5\<lparr>reason := (reason s5)[lit_Var lit := Some learnt],
                 clauses := (clauses s5)(learnt := lock (clauses s5 learnt))\<rparr>"
    using assms bd by (simp add: backjump_def Let_def s4_def s5_def)
  then have "keepsObjective s5 s'" by (simp add: keepsObjective_def)
  then show ?thesis using a b keepsObjective_trans by blast
qed

lemma keeps_status_lbd:
  "keepsObjective s (s\<lparr>status := st\<rparr>)" "keepsObjective s (s\<lparr>lbdStats := l\<rparr>)"
  "keepsObjective s (incConflicts s)" "keepsObjective s (incRestarts s)"
  "keepsObjective s (s\<lparr>localNbRestarts := n\<rparr>)"
  by (simp_all add: keepsObjective_def incConflicts_def incRestarts_def)

lemma keeps_propagateAndSearch:
  assumes "propagateAndSearch ops0 s0 lit0 lvl0 = Some y0"
  shows "opsKeepObjective ops0 \<longrightarrow> keepsObjective s0 (snd y0)"
proof (rule propagateAndSearch.raw_induct[where P = "\<lambda>ops s lit lvl y. opsKeepObjective ops \<longrightarrow> keepsObjective s (snd y)",
      OF _ assms], goal_cases)
  case (1 pas ops s lit lvl y)
  note IH = 1(1) and hyps = 1(2)
  show ?case
  proof
    assume ok: "opsKeepObjective ops"
    note tr = keepsObjective_trans
    show "keepsObjective s (snd y)"
    proof (cases "lit \<noteq> - 1")
      case False
      then show ?thesis using hyps by (auto simp: keepsObjective_refl)
    next
      case lit: True
      obtain confl s1 where u: "unifyLiteral ops s lit lvl = (confl, s1)"
        by (cases "unifyLiteral ops s lit lvl")
      have k1: "keepsObjective s s1" using keeps_unifyLiteral[OF ok u] .
      show ?thesis
      proof (cases confl)
        case None
        show ?thesis
        proof (cases "mustRestart ops (lbdStats s1)")
          case True
          then have y: "snd y = cleanupBindings (s1\<lparr>lbdStats := lbd_clear ops (lbdStats s1)\<rparr>) 1"
            using hyps lit u None by auto
          have "keepsObjective s1 (snd y)"
            unfolding y by (rule tr[OF keeps_status_lbd(2) keeps_cleanupBindings])
          then show ?thesis by (rule tr[OF k1])
        next
          case False
          obtain lit' s2 where c: "chooseLit (reduceIfDue ops s1) = (lit', s2)"
            by (cases "chooseLit (reduceIfDue ops s1)")
          have "pas ops s2 lit' (lvl + 1) = Some y"
            using hyps lit u None False c by simp
          then have a: "keepsObjective s2 (snd y)" using IH ok by blast
          have "keepsObjective (reduceIfDue ops s1) s2"
            using keeps_chooseLit[of "reduceIfDue ops s1"] c by simp
          then have b: "keepsObjective s1 s2"
            by (rule tr[OF keeps_reduceIfDue[OF ok]])
          show ?thesis by (rule tr[OF k1 tr[OF b a]])
        qed
      next
        case (Some conflict)
        define s3 where "s3 = (incConflicts s1)\<lparr>lbdStats := addConflict ops (lbdStats (incConflicts s1))
                                  (length (trail (incConflicts s1)))\<rparr>"
        have "keepsObjective s1 s3"
          unfolding s3_def by (rule tr[OF keeps_status_lbd(3) keeps_status_lbd(2)])
        then have k3: "keepsObjective s s3" by (rule tr[OF k1])
        obtain learnt unit s4 where lc: "learnClause ops s3 conflict lvl = ((learnt, unit), s4)"
          by (metis prod.exhaust)
        have k4: "keepsObjective s s4" by (rule tr[OF k3 keeps_learnClause[OF ok lc]])
        show ?thesis
        proof (cases learnt)
          case None
          obtain c' s5 where bu: "bindUnit ops s4 unit = (c', s5)" by (cases "bindUnit ops s4 unit")
          have k5: "keepsObjective s s5" by (rule tr[OF k4 keeps_bindUnit[OF ok bu]])
          show ?thesis
          proof (cases c')
            case (Some a)
            then have y: "snd y = s5\<lparr>status := Unsat\<rparr>"
              using hyps lit u \<open>confl = Some conflict\<close> lc None bu
              by (auto simp: Let_def s3_def)
            show ?thesis unfolding y by (rule tr[OF k5 keeps_status_lbd(1)])
          next
            case n: None
            obtain lit' s6 where c: "chooseLit (rebuildOrderHeap s5) = (lit', s6)"
              by (cases "chooseLit (rebuildOrderHeap s5)")
            have "pas ops s6 lit' 2 = Some y"
              using hyps lit u \<open>confl = Some conflict\<close> lc None bu n c
              by (simp add: Let_def s3_def)
            then have a: "keepsObjective s6 (snd y)" using IH ok by blast
            have "keepsObjective (rebuildOrderHeap s5) s6"
              using keeps_chooseLit[of "rebuildOrderHeap s5"] c by simp
            then have b: "keepsObjective s5 s6" by (rule tr[OF keeps_rebuildOrderHeap])
            show ?thesis by (rule tr[OF k5 tr[OF b a]])
          qed
        next
          case (Some l)
          obtain lvl' lit' s5 where bj: "backjump ops s4 l = ((lvl', lit'), s5)"
            by (metis prod.exhaust)
          have "pas ops s5 lit' lvl' = Some y"
            using hyps lit u \<open>confl = Some conflict\<close> lc Some bj
            by (simp add: Let_def s3_def)
          then have a: "keepsObjective s5 (snd y)" using IH ok by blast
          show ?thesis by (rule tr[OF k4 tr[OF keeps_backjump[OF bj] a]])
        qed
      qed
    qed
  qed
qed

lemma keeps_search:
  assumes "search ops s = Some (st, s')" "opsKeepObjective ops"
  shows "keepsObjective s s' \<and> status s' = st"
proof -
  obtain lit s2 where c: "chooseLit (s\<lparr>localNbRestarts := localNbRestarts s + 1\<rparr>) = (lit, s2)"
    by (cases "chooseLit (s\<lparr>localNbRestarts := localNbRestarts s + 1\<rparr>)")
  obtain s3 where p: "propagateAndSearch ops s2 lit 2 = Some (st, s3)" and s': "s' = s3\<lparr>status := st\<rparr>"
    using assms(1) c by (auto simp: search_def Let_def split: option.splits)
  have a: "keepsObjective s s2"
    using keeps_chooseLit[of "s\<lparr>localNbRestarts := localNbRestarts s + 1\<rparr>"] c
    by (simp add: keepsObjective_def)
  have b: "keepsObjective s2 s3" using keeps_propagateAndSearch[OF p] assms(2) by simp
  have c: "keepsObjective s3 s'" unfolding s' by (rule keeps_status_lbd(1))
  have d: "status s' = st" by (simp add: s')
  show ?thesis
    using keepsObjective_trans[OF a keepsObjective_trans[OF b c]] d by simp
qed

lemma keeps_Solve_loop:
  assumes "Solve_loop ops0 s0 = Some y0"
  shows "opsKeepObjective ops0 \<longrightarrow> keepsObjective s0 y0 \<and> status y0 \<noteq> Indet"
proof (rule Solve_loop.raw_induct[where P = "\<lambda>ops s y. opsKeepObjective ops \<longrightarrow> keepsObjective s y \<and> status y \<noteq> Indet",
      OF _ assms], goal_cases)
  case (1 loop ops s y)
  note IH = 1(1) and hyps = 1(2)
  show ?case
  proof
    assume ok: "opsKeepObjective ops"
    show "keepsObjective s y \<and> status y \<noteq> Indet"
    proof (cases "status s = Indet")
      case False
      then show ?thesis using hyps by (simp add: keepsObjective_refl)
    next
      case True
      obtain st s1 where se: "search ops s = Some (st, s1)"
        using hyps True by (auto split: option.splits)
      have k1: "keepsObjective s s1" using keeps_search[OF se ok] by simp
      show ?thesis
      proof (cases "status s1 = Indet")
        case i: True
        then have "loop ops (rebuildOrderHeap (incRestarts s1)) = Some y"
          using hyps True se by simp
        then have a: "keepsObjective (rebuildOrderHeap (incRestarts s1)) y \<and> status y \<noteq> Indet"
          using IH ok by blast
        have b: "keepsObjective s1 (rebuildOrderHeap (incRestarts s1))"
          by (rule keepsObjective_trans[OF keeps_status_lbd(4) keeps_rebuildOrderHeap])
        show ?thesis
          using keepsObjective_trans[OF k1 keepsObjective_trans[OF b conjunct1[OF a]]] a by simp
      next
        case n: False
        then have "loop ops s1 = Some y" using hyps True se by simp
        then have a: "keepsObjective s1 y \<and> status y \<noteq> Indet" using IH ok by blast
        show ?thesis using keepsObjective_trans[OF k1 conjunct1[OF a]] a by simp
      qed
    qed
  qed
qed

lemma Solve_result:
  assumes "Solve ops s = Some (st, s')" "opsKeepObjective ops"
  shows "st = status s' \<and> st \<noteq> Indet \<and>
         nbVars s' = nbVars s \<and> length (model s') = length (model s) \<and>
         minLits s' = minLits s \<and> minWeights s' = minWeights s \<and> asumptions s' = asumptions s \<and>
         (st = Sat \<longrightarrow> lastModel s' = Some (model s')) \<and>
         (st \<noteq> Sat \<longrightarrow> lastModel s' = lastModel s)"
proof (cases "status s = Unsat")
  case True
  then show ?thesis using assms(1) by (auto simp: Solve_def)
next
  case False
  obtain s1 where l: "Solve_loop ops (s\<lparr>status := Indet, localNbRestarts := 0\<rparr>) = Some s1"
    and r: "(st, s') = (let s2 = (if status s1 = Sat then s1\<lparr>lastModel := Some (model s1)\<rparr> else s1)
                        in (status s2, s2))"
    using assms(1) False by (auto simp: Solve_def Let_def split: option.splits if_splits)
  have k: "keepsObjective (s\<lparr>status := Indet, localNbRestarts := 0\<rparr>) s1" "status s1 \<noteq> Indet"
    using keeps_Solve_loop[OF l] assms(2) by simp_all
  show ?thesis
  proof (cases "status s1 = Sat")
    case True
    then have "s' = s1\<lparr>lastModel := Some (model s1)\<rparr>" "st = Sat" using r by simp_all
    then show ?thesis using k True by (simp add: keepsObjective_def)
  next
    case n: False
    then have "s' = s1" "st = status s1" using r by simp_all
    then show ?thesis using k n by (simp add: keepsObjective_def)
  qed
qed

lemma keeps_propagateUnits:
  "opsKeepObjective ops \<Longrightarrow> keepsObjective s (propagateUnits ops s units)"
proof (induction units arbitrary: s)
  case Nil
  then show ?case by (simp add: keepsObjective_refl)
next
  case (Cons unit units)
  define s3 where "s3 = cleanupBindings (incUnitLearned (s\<lparr>lbdStats := addLbd ops (lbdStats s) 1\<rparr>)) 1"
  define s4 where "s4 = s3\<lparr>model := (model s3)[lit_Var unit := lvlToSignedLvl unit 1]\<rparr>"
  have "keepsObjective s s3"
    using cleanupBindings_frame[of "incUnitLearned (s\<lparr>lbdStats := addLbd ops (lbdStats s) 1\<rparr>)" 1]
    by (simp add: s3_def keepsObjective_def incUnitLearned_def)
  then have k4: "keepsObjective s s4" by (simp add: s4_def keepsObjective_def)
  obtain confl s5 where u: "unifyLiteral ops s4 unit 1 = (confl, s5)"
    by (cases "unifyLiteral ops s4 unit 1")
  have k5: "keepsObjective s s5"
    by (rule keepsObjective_trans[OF k4 keeps_unifyLiteral[OF Cons.prems u]])
  show ?case
  proof (cases confl)
    case None
    then have "propagateUnits ops s (unit # units) = propagateUnits ops (rebuildOrderHeap s5) units"
      using u by (simp add: Let_def s4_def s3_def)
    moreover have "keepsObjective s (propagateUnits ops (rebuildOrderHeap s5) units)"
      by (rule keepsObjective_trans[OF k5 keepsObjective_trans[OF keeps_rebuildOrderHeap Cons.IH[OF Cons.prems]]])
    ultimately show ?thesis by simp
  next
    case (Some a)
    then have "propagateUnits ops s (unit # units) = s5\<lparr>status := Unsat\<rparr>"
      using u by (simp add: Let_def s4_def s3_def)
    moreover have "keepsObjective s (s5\<lparr>status := Unsat\<rparr>)"
      by (rule keepsObjective_trans[OF k5 keeps_status_lbd(1)])
    ultimately show ?thesis by simp
  qed
qed

lemma keeps_appendClause: "keepsObjective s (appendClause ops s c)"
  by (simp add: keepsObjective_def appendClause_def)

lemma keeps_clauses_update: "keepsObjective s (s\<lparr>clauses := f\<rparr>)"
  by (simp add: keepsObjective_def)

lemma keeps_AppendClause:
  assumes "opsKeepObjective ops"
  shows "keepsObjective s (AppendClause ops s c)"
proof -
  define s1 where "s1 = cleanupBindings s 1"
  obtain clause' minW maxW where l: "AppendClause_loop s1 (clauses s1 c) 0 0 0 = (clause', minW, maxW)"
    by (metis prod_cases3)
  define s2 where "s2 = s1\<lparr>clauses := (clauses s1)(c := clause')\<rparr>"
  have k2: "keepsObjective s s2"
    unfolding s2_def s1_def by (rule keepsObjective_trans[OF keeps_cleanupBindings keeps_clauses_update])
  have e: "AppendClause ops s c =
      (if minW \<ge> Cardinality (clauses s1 c) then s2
       else if maxW < Cardinality (clauses s1 c) then s2\<lparr>status := Unsat\<rparr>
       else if maxW = Cardinality (clauses s1 c) then propagateUnits ops s2 (lits clause')
       else appendClause ops s2 c)"
    using l by (simp add: AppendClause_def Let_def s1_def s2_def)
  have "keepsObjective s2 (AppendClause ops s c)"
    unfolding e
    using keepsObjective_refl[of s2] keeps_status_lbd(1)[of s2 Unsat]
      keeps_propagateUnits[OF assms, of s2] keeps_appendClause[of s2 ops c]
    by simp
  then show ?thesis by (rule keepsObjective_trans[OF k2])
qed

lemma keeps_newRef: "keepsObjective s (snd (newRef s c))"
  by (simp add: keepsObjective_def newRef_def)

lemma tighten_result:
  assumes "tighten ops s weights maxCost cost = Some (st, s')" "opsKeepObjective ops"
  shows "st = status s' \<and> st \<noteq> Indet \<and>
         nbVars s' = nbVars s \<and> length (model s') = length (model s) \<and>
         minLits s' = minLits s \<and> minWeights s' = minWeights s \<and> asumptions s' = asumptions s \<and>
         (st = Sat \<longrightarrow> lastModel s' = Some (model s')) \<and>
         (st \<noteq> Sat \<longrightarrow> lastModel s' = lastModel s)"
proof -
  define cl where "cl = NewPBClause
      (go_copy (replicate (length (case minLits s of None \<Rightarrow> [] | Some ls \<Rightarrow> ls)) 0) (asumptions s))
      (go_copy (replicate (length (case minWeights s of None \<Rightarrow> [] | Some ws \<Rightarrow> ws)) 0) weights)
      (maxCost - cost + 1)"
  define s3 where "s3 = rebuildOrderHeap (AppendClause ops (snd (newRef s cl)) (fst (newRef s cl)))"
  have so: "Solve ops s3 = Some (st, s')"
    using assms(1) by (simp add: tighten_def Let_def s3_def cl_def case_prod_beta)
  have k: "keepsObjective s s3"
    unfolding s3_def
    by (rule keepsObjective_trans[OF keeps_newRef
          keepsObjective_trans[OF keeps_AppendClause[OF assms(2)] keeps_rebuildOrderHeap]])
  show ?thesis using Solve_result[OF so assms(2)] k by (auto simp: keepsObjective_def)
qed

lemma go_copy_same_length: "length dst = length src \<Longrightarrow> go_copy dst src = src"
  by (simp add: go_copy_def)

lemma costOf_objectiveCost:
  assumes "minLits s = Some ls" "\<forall>l\<in>set ls. lit_Var l < length (model s)"
  shows "costOf s = objectiveCost ls (minWeights s) (map (\<lambda>lvl. lvl > 0) (model s))"
proof -
  have "(model s ! lit_Var (ls ! i) > 0) = (map (\<lambda>lvl. lvl > 0) (model s) ! lit_Var (ls ! i))"
    if "i < length ls" for i
    using assms(2) that by simp
  then have eq: "map (\<lambda>i. if (model s ! lit_Var (ls ! i) > 0) = IsPositive (ls ! i)
                              then (case minWeights s of None \<Rightarrow> 1 | Some ws \<Rightarrow> ws ! i)
                              else 0) [0..<length ls]
        = map (\<lambda>i. if map (\<lambda>lvl. lvl > 0) (model s) ! lit_Var (ls ! i) = IsPositive (ls ! i)
                         then (case minWeights s of None \<Rightarrow> 1 | Some ws \<Rightarrow> ws ! i)
                         else 0) [0..<length ls]"
    by (intro map_cong) simp_all
  have "costOf s = sum_list (map (\<lambda>i. if (model s ! lit_Var (ls ! i) > 0) = IsPositive (ls ! i)
                              then (case minWeights s of None \<Rightarrow> 1 | Some ws \<Rightarrow> ws ! i)
                              else 0) [0..<length ls])"
    by (simp add: costOf_def assms(1))
  also have "\<dots> = objectiveCost ls (minWeights s) (map (\<lambda>lvl. lvl > 0) (model s))"
    unfolding eq objectiveCost_def ..
  finally show ?thesis .
qed

lemma saveModel_fields:
  "minLits (saveModel s) = minLits s" "minWeights (saveModel s) = minWeights s"
  "nbVars (saveModel s) = nbVars s" "model (saveModel s) = model s"
  "asumptions (saveModel s) = asumptions s" "status (saveModel s) = status s"
  "nextRef (saveModel s) = nextRef s" "clauses (saveModel s) = clauses s"
  "lastModel s = Some lm \<Longrightarrow> length lm = length (model s) \<Longrightarrow> lastModel (saveModel s) = Some (model s)"
  by (simp_all add: saveModel_def go_copy_same_length)

lemma Minimize_loop_result:
  assumes "Minimize_loop ops0 weights0 maxCost0 s0 = Some y0"
  shows "opsKeepObjective ops0 \<longrightarrow>
         minLits s0 = Some ls \<and> minWeights s0 = mw \<and> nbVars s0 = n \<and> length (model s0) = n \<and>
         (\<exists>lm. lastModel s0 = Some lm \<and> length lm = n) \<and> (\<forall>l\<in>set ls. lit_Var l < n) \<longrightarrow>
         minLits (snd y0) = Some ls \<and> minWeights (snd y0) = mw \<and> nbVars (snd y0) = n \<and>
         (\<exists>m. lastModel (snd y0) = Some m \<and> length m = n \<and>
              fst y0 = objectiveCost ls mw (map (\<lambda>lvl. lvl > 0) m)) \<and>
         (fst y0 = 0 \<or> status (snd y0) = Unsat)"
proof (rule Minimize_loop.raw_induct[where P = "\<lambda>ops weights maxCost s y. opsKeepObjective ops \<longrightarrow>
         minLits s = Some ls \<and> minWeights s = mw \<and> nbVars s = n \<and> length (model s) = n \<and>
         (\<exists>lm. lastModel s = Some lm \<and> length lm = n) \<and> (\<forall>l\<in>set ls. lit_Var l < n) \<longrightarrow>
         minLits (snd y) = Some ls \<and> minWeights (snd y) = mw \<and> nbVars (snd y) = n \<and>
         (\<exists>m. lastModel (snd y) = Some m \<and> length m = n \<and>
              fst y = objectiveCost ls mw (map (\<lambda>lvl. lvl > 0) m)) \<and>
         (fst y = 0 \<or> status (snd y) = Unsat)", OF _ assms], goal_cases)
  case (1 loop ops weights maxCost s y)
  note IH = 1(1) and hyps = 1(2)
  show ?case
  proof (intro impI)
    assume ok: "opsKeepObjective ops"
    assume inv: "minLits s = Some ls \<and> minWeights s = mw \<and> nbVars s = n \<and> length (model s) = n \<and>
         (\<exists>lm. lastModel s = Some lm \<and> length lm = n) \<and> (\<forall>l\<in>set ls. lit_Var l < n)"
    define s1 where "s1 = saveModel s"
    define cost where "cost = costOf s1"
    have f1: "minLits s1 = Some ls" "minWeights s1 = mw" "nbVars s1 = n" "model s1 = model s"
      "lastModel s1 = Some (model s)"
      using inv by (auto simp: s1_def saveModel_fields)
    have c: "cost = objectiveCost ls mw (map (\<lambda>lvl. lvl > 0) (model s))"
      using costOf_objectiveCost[of s1 ls] f1 inv by (simp add: cost_def)
    show "minLits (snd y) = Some ls \<and> minWeights (snd y) = mw \<and> nbVars (snd y) = n \<and>
         (\<exists>m. lastModel (snd y) = Some m \<and> length m = n \<and>
              fst y = objectiveCost ls mw (map (\<lambda>lvl. lvl > 0) m)) \<and>
         (fst y = 0 \<or> status (snd y) = Unsat)"
    proof (cases "cost = 0")
      case True
      then have "y = (0, s1)" using hyps by (simp add: Let_def s1_def cost_def)
      then show ?thesis using f1 c True inv by simp
    next
      case False
      obtain st s2 where t: "tighten ops s1 weights maxCost cost = Some (st, s2)"
        using hyps False by (auto simp: Let_def s1_def cost_def split: option.splits)
      note r = tighten_result[OF t ok]
      show ?thesis
      proof (cases "st = Sat")
        case True
        then have "loop ops weights maxCost s2 = Some y"
          using hyps False t by (simp add: Let_def s1_def cost_def)
        moreover have "minLits s2 = Some ls \<and> minWeights s2 = mw \<and> nbVars s2 = n \<and> length (model s2) = n \<and>
           (\<exists>lm. lastModel s2 = Some lm \<and> length lm = n) \<and> (\<forall>l\<in>set ls. lit_Var l < n)"
          using r True f1 inv by simp
        ultimately show ?thesis using IH ok by blast
      next
        case n: False
        then have y: "y = (cost, s2)"
          using hyps False t by (simp add: Let_def s1_def cost_def)
        have "status s2 = Unsat" using r n by (cases "status s2") auto
        then show ?thesis using y r n f1 c inv by simp
      qed
    qed
  qed
qed

lemma objectiveCost_nonneg:
  assumes "case mw of None \<Rightarrow> True | Some ws \<Rightarrow> length ws = length ls \<and> (\<forall>w\<in>set ws. 0 \<le> w)"
  shows "0 \<le> objectiveCost ls mw bs"
proof -
  define F where "F = (\<lambda>i. if bs ! lit_Var (ls ! i) = IsPositive (ls ! i)
                         then (case mw of None \<Rightarrow> 1 | Some ws \<Rightarrow> ws ! i)
                         else (0::int))"
  have w: "0 \<le> (case mw of None \<Rightarrow> 1 | Some ws \<Rightarrow> ws ! i)" if "i < length ls" for i
    using assms that by (auto split: option.splits)
  have f: "0 \<le> F i" if "i < length ls" for i
    using w[OF that] by (simp add: F_def)
  have "0 \<le> x" if xin: "x \<in> set (map F [0..<length ls])" for x
  proof -
    obtain i where "i < length ls" "x = F i" using xin by auto
    then show ?thesis using f by simp
  qed
  then have "0 \<le> sum_list (map F [0..<length ls])" by (rule sum_list_nonneg)
  then show ?thesis by (simp add: objectiveCost_def F_def)
qed

lemma Model_of_lastModel:
  "lastModel s = Some m \<Longrightarrow> length m = nbVars s \<Longrightarrow> Model s = Inr (map (\<lambda>lvl. lvl > 0) m)"
  by (simp add: Model_def)

text \<open>
  What \<^verbatim>\<open>Minimize\<close> returns, when it returns. Let the operations leave the objective and
  the saved model alone, and let the objective be well formed (its variables exist, its
  weights are as many as its literals and not negative). When \<^verbatim>\<open>Minimize\<close> returns \<open>r\<close>:
  \<open>r\<close> is \<open>-1\<close> exactly when the first \<^verbatim>\<open>Solve\<close> answered \<open>Unsat\<close>; without an objective
  \<open>r\<close> is \<open>-1\<close> or 0; otherwise \<^verbatim>\<open>Model\<close> returns, in the solver left behind, a model
  whose objective cost is \<open>r\<close>, and either \<open>r\<close> is 0 or the last \<^verbatim>\<open>Solve\<close>, on the
  tightened problem, answered \<open>Unsat\<close>.
\<close>

theorem Minimize_returns:
  assumes ok: "opsKeepObjective ops"
    and len: "length (model s) = nbVars s"
    and obj: "case minLits s of None \<Rightarrow> True
              | Some ls \<Rightarrow> (\<forall>l\<in>set ls. lit_Var l < nbVars s) \<and>
                  (case minWeights s of None \<Rightarrow> True
                   | Some ws \<Rightarrow> length ws = length ls \<and> (\<forall>w\<in>set ws. 0 \<le> w))"
    and ret: "Minimize ops s = Some (Inr (r, s'))"
  shows "(r = - 1 \<longleftrightarrow> (\<exists>s1. Solve ops s = Some (Unsat, s1))) \<and>
         (minLits s = None \<longrightarrow> r = - 1 \<or> r = 0) \<and>
         (r \<noteq> - 1 \<longrightarrow>
            (\<exists>bs. Model s' = Inr bs \<and> length bs = nbVars s \<and>
                  r = (case minLits s of None \<Rightarrow> 0 | Some ls \<Rightarrow> objectiveCost ls (minWeights s) bs))) \<and>
         (minLits s \<noteq> None \<and> r \<noteq> - 1 \<longrightarrow> r = 0 \<or> status s' = Unsat)"
proof -
  obtain st s1 where so: "Solve ops s = Some (st, s1)"
    using ret by (auto simp: Minimize_def split: option.splits)
  note sr = Solve_result[OF so ok]
  show ?thesis
  proof (cases "st = Unsat")
    case True
    then have "r = - 1" using ret so by (simp add: Minimize_def)
    then show ?thesis using so True by auto
  next
    case nu: False
    then have sat: "st = Sat" using sr by (cases st) auto
    have lm1: "lastModel s1 = Some (model s1)" "length (model s1) = nbVars s1" "nbVars s1 = nbVars s"
      using sr sat len by simp_all
    show ?thesis
    proof (cases "minLits s")
      case None
      then have "minLits s1 = None" using sr by simp
      then have "r = 0" "s' = s1" using ret so nu by (simp_all add: Minimize_def)
      moreover have "Model s1 = Inr (map (\<lambda>lvl. lvl > 0) (model s1))"
        using lm1 by (simp add: Model_of_lastModel)
      ultimately show ?thesis using None so sat lm1 by auto
    next
      case (Some ls)
      then have ml: "minLits s1 = Some ls" using sr by simp
      have rng: "\<forall>l\<in>set ls. lit_Var l < nbVars s" using obj Some by simp
      have wts: "case minWeights s of None \<Rightarrow> True
                 | Some ws \<Rightarrow> length ws = length ls \<and> (\<forall>w\<in>set ws. 0 \<le> w)"
        using obj Some by simp
      obtain asum weights where
        lp: "Minimize_loop ops weights (maxCostOf s1)
               (s1\<lparr>asumptions := asum, lastModel := Some (replicate (length (model s1)) 0)\<rparr>) = Some (r, s')"
        using ret so nu sat ml
        by (auto simp: Minimize_def Let_def split: sum.splits option.splits)
      have post: "minLits s' = Some ls \<and> minWeights s' = minWeights s \<and> nbVars s' = nbVars s \<and>
         (\<exists>m. lastModel s' = Some m \<and> length m = nbVars s \<and>
              r = objectiveCost ls (minWeights s) (map (\<lambda>lvl. lvl > 0) m)) \<and>
         (r = 0 \<or> status s' = Unsat)"
        using Minimize_loop_result[OF lp, of ls "minWeights s" "nbVars s"] ok ml sr lm1 rng
        by simp
      then obtain m where m: "lastModel s' = Some m" "length m = nbVars s"
        "r = objectiveCost ls (minWeights s) (map (\<lambda>lvl. lvl > 0) m)"
        by blast
      have mo: "Model s' = Inr (map (\<lambda>lvl. lvl > 0) m)"
        using m post by (simp add: Model_of_lastModel)
      have "0 \<le> r" unfolding m(3) by (rule objectiveCost_nonneg[OF wts])
      then have rn: "r \<noteq> - 1" by simp
      have a: "\<not> (\<exists>s1. Solve ops s = Some (Unsat, s1))" using so nu by simp
      have b: "\<exists>bs. Model s' = Inr bs \<and> length bs = nbVars s \<and>
                  r = (case minLits s of None \<Rightarrow> 0 | Some ls \<Rightarrow> objectiveCost ls (minWeights s) bs)"
        using mo m Some by simp
      show ?thesis using rn a b post Some by simp
    qed
  qed
qed

lemma unit_problem_solved_fields:
  "trail unit_problem_solved = [0]" "model unit_problem_solved = [1]" "minLits unit_problem_solved = Some [0]" "minWeights unit_problem_solved = Some [1]"
  "lastModel unit_problem_solved = Some [0]" "asumptions unit_problem_solved = [1]" "nextRef unit_problem_solved = 0" "nbVars unit_problem_solved = 1"
  "polarity unit_problem_solved = [False]" "varQueue unit_problem_solved = []" "reason unit_problem_solved = [None]"
  by (simp_all add: unit_problem_solved_def unit_problem_def free_solver_def)

lemma cleanup_unit_problem_solved:
  "model (cleanupBindings (snd (newRef (saveModel unit_problem_solved) c)) 1) = [1]"
  "status (cleanupBindings (snd (newRef (saveModel unit_problem_solved) c)) 1) = Sat"
  "clauses (cleanupBindings (snd (newRef (saveModel unit_problem_solved) c)) 1) 0 = c"
  by (simp_all add: cleanupBindings_def newRef_def saveModel_def unit_problem_solved_fields lit_defs
      resetOptimPolarity_def unit_problem_solved_def unit_problem_def free_solver_def)

lemma tighten_unit_problem_solved: "\<exists>s'. tighten free_ops (saveModel unit_problem_solved) [1] 1 1 = Some (Unsat, s')"
proof -
  define c where "c = NewPBClause [1] [1] 1"
  define s1 where "s1 = snd (newRef (saveModel unit_problem_solved) c)"
  have cf: "lits c = [1]" "litWeights c = Some [1]" "cardinality c = 1"
    by (simp_all add: c_def NewPBClause_def)
  have wfc: "case litWeights (clauses (cleanupBindings s1 1) 0) of None \<Rightarrow> True
           | Some ws \<Rightarrow> length ws = length (lits (clauses (cleanupBindings s1 1) 0))"
    by (simp add: s1_def cleanup_unit_problem_solved cf)
  have st: "litStatus (cleanupBindings s1 1) 1 = Unsat"
    by (simp add: litStatus_def s1_def cleanup_unit_problem_solved lit_defs)
  have "status (AppendClause free_ops s1 0) = Unsat"
    unfolding AppendClause_eq[OF wfc]
    by (simp add: Let_def s1_def cleanup_unit_problem_solved cf reducedClause_def satisfiedWeight_def
        freeWeight_def clauseTerms_def st[unfolded s1_def])
  then have "Solve free_ops (rebuildOrderHeap (AppendClause free_ops s1 0)) =
     Some (Unsat, rebuildOrderHeap (AppendClause free_ops s1 0))"
    by (simp add: Solve_def rebuildOrderHeap_def)
  moreover have "tighten free_ops (saveModel unit_problem_solved) [1] 1 1 =
      Solve free_ops (rebuildOrderHeap (AppendClause free_ops s1 0))"
    by (simp add: tighten_def Let_def s1_def c_def saveModel_fields unit_problem_solved_fields go_copy_def newRef_def)
  ultimately show ?thesis by simp
qed


lemma opsKeepObjective_free_ops: "opsKeepObjective free_ops"
  by (simp add: opsKeepObjective_def keepsObjective_def free_ops_fields free_unify_def)

lemma costOf_unit_problem_solved: "costOf (saveModel unit_problem_solved) = 1"
  by (simp add: costOf_def saveModel_fields unit_problem_solved_fields lit_defs)

lemma Minimize_loop_unit_problem:
  "\<exists>s'. Minimize_loop free_ops [1] 1 unit_problem_solved = Some (1, s')"
proof -
  obtain s' where t: "tighten free_ops (saveModel unit_problem_solved) [1] 1 1 = Some (Unsat, s')"
    using tighten_unit_problem_solved by blast
  have "Minimize_loop free_ops [1] 1 unit_problem_solved = Some (1, s')"
    by (subst Minimize_loop.simps) (simp add: Let_def costOf_unit_problem_solved t)
  then show ?thesis by blast
qed

lemma sortWLits_single: "sortWLits [l] ws = Inr ([l], ws)"
  by (simp add: sortWLits_def)

lemma Minimize_unit_problem: "\<exists>s'. Minimize free_ops unit_problem = Some (Inr (1, s'))"
proof -
  have e: "(unit_problem\<lparr>status := Sat, localNbRestarts := 1, varQueue := [], lastModel := Some [1]\<rparr>)
        \<lparr>asumptions := [1], lastModel := Some (replicate (length (model (unit_problem\<lparr>status := Sat,
            localNbRestarts := 1, varQueue := [], lastModel := Some [1]\<rparr>))) 0)\<rparr> = unit_problem_solved"
    by (simp add: unit_problem_solved_def unit_problem_def free_solver_def)
  have e2: "unit_problem\<lparr>status := Sat, localNbRestarts := 1, varQueue := [], asumptions := [1],
         lastModel := Some (replicate (length (model unit_problem)) 0)\<rparr> = unit_problem_solved"
    by (simp add: unit_problem_solved_def unit_problem_def free_solver_def)
  have m: "maxCostOf (unit_problem\<lparr>status := Sat, localNbRestarts := 1, varQueue := [], lastModel := Some [1]\<rparr>) = 1"
    by (simp add: maxCostOf_def unit_problem_def free_solver_def)
  have f: "minLits (unit_problem\<lparr>status := Sat, localNbRestarts := 1, varQueue := [], lastModel := Some [1]\<rparr>) = Some [0]"
    "minWeights (unit_problem\<lparr>status := Sat, localNbRestarts := 1, varQueue := [], lastModel := Some [1]\<rparr>) = Some [1]"
    by (simp_all add: unit_problem_def free_solver_def)
  obtain s' where l: "Minimize_loop free_ops [1] 1 unit_problem_solved = Some (1, s')"
    using Minimize_loop_unit_problem by blast
  have "Minimize free_ops unit_problem = Some (Inr (1, s'))"
    by (simp add: Minimize_def Solve_unit_problem f sortWLits_single Negation_def Let_def m e e2 l)
  then show ?thesis by blast
qed

theorem Minimize_returns_witness:
  "opsKeepObjective free_ops \<and>
   (\<exists>s'. Minimize free_ops unit_problem = Some (Inr (1, s')) \<and>
         Model s' = Inr [True] \<and> objectiveCost [0] (Some [1]) [True] = 1 \<and> status s' = Unsat) \<and>
   (\<exists>s1. Solve free_ops unit_problem = Some (Sat, s1))"
proof -
  obtain s' where r: "Minimize free_ops unit_problem = Some (Inr (1, s'))"
    using Minimize_unit_problem by blast
  have len: "length (model unit_problem) = nbVars unit_problem"
    by (simp add: unit_problem_def free_solver_def)
  have obj: "case minLits unit_problem of None \<Rightarrow> True
              | Some ls \<Rightarrow> (\<forall>l\<in>set ls. lit_Var l < nbVars unit_problem) \<and>
                  (case minWeights unit_problem of None \<Rightarrow> True
                   | Some ws \<Rightarrow> length ws = length ls \<and> (\<forall>w\<in>set ws. 0 \<le> w))"
    by (simp add: unit_problem_def free_solver_def lit_defs)
  note t = Minimize_returns [OF opsKeepObjective_free_ops len obj r]
  have f: "minLits unit_problem = Some [0]" "minWeights unit_problem = Some [1]" "nbVars unit_problem = 1"
    by (simp_all add: unit_problem_def free_solver_def)
  obtain bs where bs: "Model s' = Inr bs" "length bs = 1" "1 = objectiveCost [0] (Some [1]) bs"
    using t by (auto simp: f)
  then obtain b where b: "bs = [b]" by (cases bs) auto
  have "b" using bs(3) unfolding b by (cases b) (simp_all add: objectiveCost_def lit_defs)
  then have m: "Model s' = Inr [True]" "objectiveCost [0] (Some [1]) [True] = 1"
    using bs b by simp_all
  have u: "status s' = Unsat" using t by (simp add: f)
  show ?thesis
    using opsKeepObjective_free_ops r m u Solve_unit_problem[of free_ops] by blast
qed


lemma sortWLits_total:
  "length ws = length ls \<Longrightarrow> \<exists>asum weights. sortWLits ls ws = Inr (asum, weights)"
  by (simp add: sortWLits_def Let_def)








lemma search_unweighted_example:
  "search ops (unweighted_example\<lparr>status := Indet, localNbRestarts := 0\<rparr>) =
     Some (Sat, unweighted_example\<lparr>status := Sat, localNbRestarts := 1, varQueue := []\<rparr>)"
  by (simp add: search_def unweighted_example_def free_solver_def chooseLit_def chooseVar_Cons
      chooseVar_Nil propagateAndSearch_no_lit Let_def upt_rec)

lemma Solve_unweighted_example:
  "Solve ops unweighted_example =
     Some (Sat, unweighted_example\<lparr>status := Sat, localNbRestarts := 1, varQueue := [],
                                   lastModel := Some [1, 1]\<rparr>)"
proof -
  have "status unweighted_example \<noteq> Unsat" by (simp add: unweighted_example_def free_solver_def)
  moreover have "Solve_loop ops (unweighted_example\<lparr>status := Indet, localNbRestarts := 0\<rparr>) =
     Some (unweighted_example\<lparr>status := Sat, localNbRestarts := 1, varQueue := []\<rparr>)"
    by (simp add: Solve_loop_Indet search_unweighted_example Solve_loop_decided)
  ultimately show ?thesis
    by (simp add: Solve_def unweighted_example_def free_solver_def)
qed

text \<open>
  C6, on an objective without weights. \<^verbatim>\<open>Minimize\<close> counts 1 for each literal of such an
  objective, in \<open>maxCost\<close> and in the cost of a model, but sorts the assumptions by a copy of
  the weights, which is empty when there are none: with two literals or more the first
  comparison reads past its end. On the problem with the units \<open>x1\<close> and \<open>x2\<close> and the
  objective \<open>x1 + x2\<close>, whose only model costs 2, \<^verbatim>\<open>Solve\<close> answers \<open>Sat\<close> and then
  \<^verbatim>\<open>Minimize\<close>, and \<^verbatim>\<open>Optimal\<close> as well, panics instead of returning 2.
\<close>

theorem Minimize_unweighted_panics:
  "Solve free_ops unweighted_example =
      Some (Sat, unweighted_example\<lparr>status := Sat, localNbRestarts := 1, varQueue := [],
                                    lastModel := Some [1, 1]\<rparr>) \<and>
   objectiveCost [0, 2] None [True, True] = 2 \<and>
   Minimize free_ops unweighted_example = Some (Inl (Panic ''index out of range'')) \<and>
   Optimal free_ops unweighted_example = Some (Inl (Panic ''index out of range''))"
proof -
  have f: "minLits (unweighted_example\<lparr>status := Sat, localNbRestarts := 1, varQueue := [],
                                   lastModel := Some [1, 1]\<rparr>) = Some [0, 2]"
    "minWeights (unweighted_example\<lparr>status := Sat, localNbRestarts := 1, varQueue := [],
                                   lastModel := Some [1, 1]\<rparr>) = None"
    by (simp_all add: unweighted_example_def free_solver_def)
  have s: "sortWLits [Negation 0, Negation 2] [] = Inl (Panic ''index out of range'')"
    by (simp add: sortWLits_def)
  have c: "objectiveCost [0, 2] None [True, True] = 2"
    by (simp add: objectiveCost_def lit_defs upt_rec)
  have m: "Minimize free_ops unweighted_example = Some (Inl (Panic ''index out of range''))"
    by (simp add: Minimize_def Solve_unweighted_example f s del: Solver.simps Solver.update_convs)
  have p: "Optimal free_ops unweighted_example = Some (Inl (Panic ''index out of range''))"
    by (simp add: Optimal_def Solve_unweighted_example f s del: Solver.simps Solver.update_convs)
  show ?thesis using Solve_unweighted_example[of free_ops] c m p by blast
qed

end
